theory Spec2Isabelle
  imports Main "HOL-Library.AList" "HOL-Library.List_Lexorder" "HOL-Library.Char_ord"
begin

section \<open>Orphan clean-up list: parser and classifier of \<^verbatim>\<open>package/cleanup-list.py\<close>\<close>

text \<open>
  A Python \<^verbatim>\<open>str\<close> is a sequence of code points. The model is a \<^typ>\<open>string\<close>, one
  \<^typ>\<open>char\<close> for each code point below 256; the delimiters of the program
  (\<^verbatim>\<open>% : < > =\<close>, the line terminators and blanks) are all among these.
  Exceptions are values of \<open>error\<close>, carried in the left summand.
\<close>

datatype error = KeyError | IndexError | AttributeError

definition bindE :: "error + 'a \<Rightarrow> ('a \<Rightarrow> error + 'b) \<Rightarrow> error + 'b" where
  "bindE r f = (case r of Inl e \<Rightarrow> Inl e | Inr v \<Rightarrow> f v)"

text \<open>A \<^verbatim>\<open>for\<close> loop whose body may raise: the first exception ends the loop.\<close>

fun for_each :: "('a \<Rightarrow> 's \<Rightarrow> error + 's) \<Rightarrow> 'a list \<Rightarrow> 's \<Rightarrow> error + 's" where
  "for_each body [] s = Inr s"
| "for_each body (x # xs) s = bindE (body x s) (for_each body xs)"

subsection \<open>String methods\<close>

text \<open>\<^verbatim>\<open>str.isspace\<close> on one code point below 256.\<close>

definition isspace :: "char \<Rightarrow> bool" where
  "isspace c = (of_char c \<in> {9, 10, 11, 12, 13, 28, 29, 30, 31, 32, 133, 160 :: nat})"

text \<open>\<^verbatim>\<open>s.strip()\<close>: blanks removed at both ends.\<close>

definition strip :: "string \<Rightarrow> string" where
  "strip s = rev (dropWhile isspace (rev (dropWhile isspace s)))"

text \<open>\<^verbatim>\<open>str.lower\<close> on one code point below 256: A-Z and the Latin-1 capitals.\<close>

definition lower_char :: "char \<Rightarrow> char" where
  "lower_char c =
     (let n = (of_char c :: nat)
      in if (65 \<le> n \<and> n \<le> 90) \<or> (192 \<le> n \<and> n \<le> 222 \<and> n \<noteq> 215)
         then char_of (n + 32) else c)"

definition lower :: "string \<Rightarrow> string" where
  "lower s = map lower_char s"

definition startswith :: "string \<Rightarrow> char \<Rightarrow> bool" where
  "startswith s c = (case s of [] \<Rightarrow> False | x # _ \<Rightarrow> x = c)"

definition endswith :: "string \<Rightarrow> char \<Rightarrow> bool" where
  "endswith s c = (case rev s of [] \<Rightarrow> False | x # _ \<Rightarrow> x = c)"

text \<open>
  \<^verbatim>\<open>s.split(sep)\<close> for a separator of one character. The result of Python's split is
  never empty: it is returned as its first piece and the list of the others, so
  \<^verbatim>\<open>s.split(sep)[0]\<close> is the first component.
\<close>

fun split :: "char \<Rightarrow> string \<Rightarrow> string \<times> string list" where
  "split sep [] = ([], [])"
| "split sep (c # cs) =
     (case split sep cs of (w, ws) \<Rightarrow> if c = sep then ([], w # ws) else (c # w, ws))"

text \<open>Indexing a list, \<^verbatim>\<open>xs[0]\<close>: an empty list raises.\<close>

definition item0 :: "'a list \<Rightarrow> error + 'a" where
  "item0 xs = (case xs of [] \<Rightarrow> Inl IndexError | x # _ \<Rightarrow> Inr x)"

text \<open>\<^verbatim>\<open>xs.pop()\<close>: the last element; an empty list raises.\<close>

definition pop :: "'a list \<Rightarrow> error + 'a" where
  "pop xs = (case rev xs of [] \<Rightarrow> Inl IndexError | x # _ \<Rightarrow> Inr x)"

text \<open>
  Reading a text stream opened with universal newlines: \<^verbatim>\<open>\r\n\<close> and \<^verbatim>\<open>\r\<close> become
  \<^verbatim>\<open>\n\<close>, and iterating the stream yields the lines with their terminator.
\<close>

fun translate_newlines :: "string \<Rightarrow> string" where
  "translate_newlines [] = []"
| "translate_newlines [c] = [if c = CHR 0x0D then CHR 0x0A else c]"
| "translate_newlines (c # d # cs) =
     (if c = CHR 0x0D \<and> d = CHR 0x0A then CHR 0x0A # translate_newlines cs
      else (if c = CHR 0x0D then CHR 0x0A else c) # translate_newlines (d # cs))"

fun iter_lines :: "string \<Rightarrow> string list" where
  "iter_lines [] = []"
| "iter_lines (c # cs) =
     (if c = CHR 0x0A then [c] # iter_lines cs
      else (case iter_lines cs of [] \<Rightarrow> [[c]] | l # ls \<Rightarrow> (c # l) # ls))"

definition text_lines :: "string \<Rightarrow> string list" where
  "text_lines s = iter_lines (translate_newlines s)"

subsection \<open>\<^verbatim>\<open>parse_desc\<close>\<close>

text \<open>
  The state of the loop is the dictionary \<^verbatim>\<open>store\<close> and \<^verbatim>\<open>blockname\<close>, which is
  \<^verbatim>\<open>None\<close> before the first marker. The test \<^verbatim>\<open>elif blockname:\<close> is Python truth: it
  fails on \<^verbatim>\<open>None\<close> and on the empty string.
\<close>

type_synonym store = "string \<rightharpoonup> string list"

definition is_marker :: "string \<Rightarrow> bool" where
  "is_marker line = (startswith line CHR ''%'' \<and> endswith line CHR ''%'')"

definition block_name :: "string \<Rightarrow> string" where
  "block_name line = lower (butlast (tl line))"

definition desc_line :: "string \<Rightarrow> store \<times> string option \<Rightarrow> error + store \<times> string option" where
  "desc_line raw st =
     (let line = strip raw; store = fst st; blockname = snd st
      in if line = [] then Inr st
         else if is_marker line then
           (let b = block_name line in Inr (store(b \<mapsto> []), Some b))
         else (case blockname of
                 None \<Rightarrow> Inr st
               | Some b \<Rightarrow>
                   if b = [] then Inr st
                   else (case store b of
                           None \<Rightarrow> Inl KeyError
                         | Some vs \<Rightarrow> Inr (store(b \<mapsto> vs @ [line]), blockname))))"

definition parse_desc :: "string list \<Rightarrow> error + store" where
  "parse_desc iofile = bindE (for_each desc_line iofile (Map.empty, None)) (\<lambda>st. Inr (fst st))"

subsection \<open>\<^verbatim>\<open>parse_repo\<close>\<close>

text \<open>
  The opened archive is the list of its members in archive order. A member is a directory
  or a regular file with its text (decoding the bytes is outside the model).
  \<^verbatim>\<open>getmember\<close> returns the last member of the given name and raises \<^verbatim>\<open>KeyError\<close> when
  there is none (it first removes trailing slashes from the name; the names looked up
  here end in \<^verbatim>\<open>desc\<close> or \<^verbatim>\<open>depends\<close>); \<^verbatim>\<open>extractfile\<close> returns \<^verbatim>\<open>None\<close> for a directory,
  on which \<^verbatim>\<open>read\<close> raises \<^verbatim>\<open>AttributeError\<close>.
\<close>

record tarinfo =
  tar_name :: string
  tar_isdir :: bool
  tar_data :: string

type_synonym archive = "tarinfo list"

definition getmember :: "archive \<Rightarrow> string \<Rightarrow> error + tarinfo" where
  "getmember repodb n =
     (case find (\<lambda>m. tar_name m = n) (rev repodb) of
        None \<Rightarrow> Inl KeyError
      | Some m \<Rightarrow> Inr m)"

definition read_member :: "tarinfo \<Rightarrow> error + string" where
  "read_member m = (if tar_isdir m then Inl AttributeError else Inr (tar_data m))"

text \<open>\<^verbatim>\<open>os.path.join(a, b)\<close> for a relative \<open>b\<close>, and \<^verbatim>\<open>os.path.basename\<close>.\<close>

definition path_join :: "string \<Rightarrow> string \<Rightarrow> string" where
  "path_join a b = (if a = [] \<or> endswith a CHR ''/'' then a @ b else a @ ''/'' @ b)"

definition basename :: "string \<Rightarrow> string" where
  "basename p = rev (takeWhile (\<lambda>c. c \<noteq> CHR ''/'') (rev p))"

text \<open>
  A package is the dictionary \<^verbatim>\<open>pkgs[pkgname]\<close>. Its entries \<^verbatim>\<open>repo\<close> and \<^verbatim>\<open>arch\<close> are
  set as soon as it is created; \<^verbatim>\<open>pkgbase\<close>, \<^verbatim>\<open>required_by\<close> and \<^verbatim>\<open>maintainers\<close> may be
  absent; the four dependency entries are addressed by their key, and each may be absent
  until the last step of the reader.
\<close>

record package =
  repo :: string
  arch :: string
  pkgbase :: "string option"
  deps :: "string \<rightharpoonup> string set"
  required_by :: "string set option"
  maintainers :: "string list option"

definition pkgfields :: "string list" where
  "pkgfields = [''depends'', ''makedepends'', ''optdepends'', ''checkdepends'']"

definition getitem :: "('k \<rightharpoonup> 'v) \<Rightarrow> 'k \<Rightarrow> error + 'v" where
  "getitem d k = (case d k of None \<Rightarrow> Inl KeyError | Some v \<Rightarrow> Inr v)"

text \<open>Lines 36 to 53: the metadata record gives the name and the first fields.\<close>

definition desc_fields :: "store \<Rightarrow> string \<rightharpoonup> string set" where
  "desc_fields desc =
     fold (\<lambda>key d. case desc key of None \<Rightarrow> d | Some vs \<Rightarrow> d(key \<mapsto> set vs))
       pkgfields Map.empty"

definition read_desc :: "string \<Rightarrow> archive \<Rightarrow> string \<Rightarrow> error + string \<times> package" where
  "read_desc reponame repodb pkgid =
     bindE (getmember repodb (path_join pkgid ''desc'')) (\<lambda>desc_tar.
     bindE (read_member desc_tar) (\<lambda>desc_file.
     bindE (parse_desc (text_lines desc_file)) (\<lambda>desc.
     bindE (bindE (getitem desc ''name'') item0) (\<lambda>pkgname.
     bindE (bindE (getitem desc ''arch'') pop) (\<lambda>a.
     bindE (case desc ''base'' of
              None \<Rightarrow> Inr None
            | Some bs \<Rightarrow> bindE (item0 bs) (\<lambda>b. Inr (Some b))) (\<lambda>base.
     Inr (pkgname,
          \<lparr>repo = reponame, arch = a, pkgbase = base, deps = desc_fields desc,
           required_by = None, maintainers = None\<rparr>)))))))"

text \<open>
  Lines 55 to 71: the build-dependency record. The outer \<^verbatim>\<open>except KeyError: pass\<close> catches
  the \<^verbatim>\<open>KeyError\<close> of \<^verbatim>\<open>getmember\<close>; any other exception propagates. The inner handler
  creates an entry that \<^verbatim>\<open>update\<close> did not find.
\<close>

definition merge_fields :: "store \<Rightarrow> package \<Rightarrow> package" where
  "merge_fields depends p =
     p\<lparr>deps :=
        fold (\<lambda>key d. case depends key of
                None \<Rightarrow> d
              | Some vs \<Rightarrow> (case d key of
                             Some s \<Rightarrow> d(key \<mapsto> s \<union> set vs)
                           | None \<Rightarrow> d(key \<mapsto> set vs)))
          pkgfields (deps p)\<rparr>"

definition merge_depends :: "archive \<Rightarrow> string \<Rightarrow> package \<Rightarrow> error + package" where
  "merge_depends repodb pkgid p =
     (case bindE (getmember repodb (path_join pkgid ''depends'')) (\<lambda>depends_tar.
           bindE (read_member depends_tar) (\<lambda>depends_file.
           bindE (parse_desc (text_lines depends_file)) (\<lambda>depends.
           Inr (merge_fields depends p)))) of
        Inl KeyError \<Rightarrow> Inr p
      | Inl e \<Rightarrow> Inl e
      | Inr p' \<Rightarrow> Inr p')"

text \<open>Lines 73 to 77: remove descriptions from optional dependencies.\<close>

definition remove_descriptions :: "package \<Rightarrow> package" where
  "remove_descriptions p =
     (case deps p ''optdepends'' of
        None \<Rightarrow> p
      | Some s \<Rightarrow>
          p\<lparr>deps := (deps p)(''optdepends'' \<mapsto> (\<lambda>optdep. fst (split CHR '':'' optdep)) ` s)\<rparr>)"

text \<open>Lines 79 to 86: remove version requirements, one pass for each character.\<close>

definition version_pass :: "char \<Rightarrow> string set \<Rightarrow> string set" where
  "version_pass ch tmp = (\<lambda>dep. if ch \<in> set dep then fst (split ch dep) else dep) ` tmp"

definition remove_versions :: "package \<Rightarrow> package" where
  "remove_versions p =
     p\<lparr>deps :=
        fold (\<lambda>key d. case d key of
                None \<Rightarrow> d
              | Some tmp \<Rightarrow> d(key \<mapsto> fold version_pass ''<>='' tmp))
          pkgfields (deps p)\<rparr>"

text \<open>Lines 88 to 91: assign empty sets to missing fields.\<close>

definition fill_missing :: "package \<Rightarrow> package" where
  "fill_missing p =
     p\<lparr>deps :=
        fold (\<lambda>key d. case d key of None \<Rightarrow> d(key \<mapsto> {}) | Some _ \<Rightarrow> d)
          pkgfields (deps p)\<rparr>"

text \<open>
  One directory of the archive. The source creates \<^verbatim>\<open>pkgs[pkgname]\<close> first and fills it
  in place; no other key is added meanwhile and an exception discards \<^verbatim>\<open>pkgs\<close>, so the
  package is built here and stored under its name at the end.
\<close>

definition parse_pkg :: "string \<Rightarrow> archive \<Rightarrow> string \<Rightarrow> error + string \<times> package" where
  "parse_pkg reponame repodb pkgid =
     bindE (read_desc reponame repodb pkgid) (\<lambda>(pkgname, p).
     bindE (merge_depends repodb pkgid p) (\<lambda>p'.
     Inr (pkgname, fill_missing (remove_versions (remove_descriptions p')))))"

type_synonym index = "(string \<times> package) list"

definition parse_member :: "string \<Rightarrow> archive \<Rightarrow> tarinfo \<Rightarrow> index \<Rightarrow> error + index" where
  "parse_member reponame repodb tarinfo pkgs =
     (if tar_isdir tarinfo then
        bindE (parse_pkg reponame repodb (tar_name tarinfo)) (\<lambda>(pkgname, p).
        Inr (AList.update pkgname p pkgs))
      else Inr pkgs)"

definition parse_repo :: "string \<Rightarrow> archive \<Rightarrow> error + index" where
  "parse_repo dbpath repodb =
     (let reponame = fst (split CHR ''.'' (basename dbpath))
      in for_each (parse_member reponame repodb) repodb [])"

text \<open>
  \<^verbatim>\<open>get_packages\<close>, after the download: the repositories are read in order and each
  result is merged with \<^verbatim>\<open>dict.update\<close>, a later package replacing an earlier one of the
  same name.
\<close>

definition dict_update :: "index \<Rightarrow> index \<Rightarrow> index" where
  "dict_update pkgs new = fold (\<lambda>(k, v). AList.update k v) new pkgs"

definition get_packages :: "(string \<times> archive) list \<Rightarrow> error + index" where
  "get_packages dbs =
     for_each (\<lambda>(dbpath, repodb) pkgs.
                 bindE (parse_repo dbpath repodb) (\<lambda>new. Inr (dict_update pkgs new)))
       dbs []"

subsection \<open>The classifier: \<^verbatim>\<open>find_unneeded_orphans\<close>, \<^verbatim>\<open>what_requires\<close>, \<^verbatim>\<open>main\<close>\<close>

text \<open>
  \<^verbatim>\<open>for pkg in pkgs\<close> runs over the keys of the dictionary, and \<^verbatim>\<open>pkgs[pkg][key]\<close> raises
  \<^verbatim>\<open>KeyError\<close> when the package or the entry is absent.
\<close>

definition lookup :: "index \<Rightarrow> string \<Rightarrow> error + package" where
  "lookup pkgs k = getitem (map_of pkgs) k"

definition getfield :: "index \<Rightarrow> string \<Rightarrow> string \<Rightarrow> error + string set" where
  "getfield pkgs pkg key = bindE (lookup pkgs pkg) (\<lambda>p. getitem (deps p) key)"

definition find_unneeded_orphans :: "index \<Rightarrow> string set \<Rightarrow> error + string set" where
  "find_unneeded_orphans pkgs orphans =
     bindE (for_each (\<lambda>pkg.
              for_each (\<lambda>key required.
                bindE (getfield pkgs pkg key) (\<lambda>s. Inr (required \<union> s)))
              pkgfields)
            (map fst pkgs) {})
       (\<lambda>required. Inr (orphans - required))"

definition deptypes :: "string list" where
  "deptypes = [''depends'', ''makedepends'', ''checkdepends'']"

definition what_requires :: "index \<Rightarrow> string \<Rightarrow> error + string set" where
  "what_requires pkgs pkgname =
     for_each (\<lambda>pkg.
        for_each (\<lambda>deptype required_by.
          bindE (getfield pkgs pkg deptype) (\<lambda>s.
          Inr (if pkgname \<in> s then insert pkg required_by else required_by)))
        deptypes)
       (map fst pkgs) {}"

text \<open>
  The state of the loop of \<^verbatim>\<open>main\<close>: \<^verbatim>\<open>packages\<close>, \<^verbatim>\<open>unneeded\<close> and \<^verbatim>\<open>required_orphans\<close>,
  where \<^verbatim>\<open>required_orphans[orphan]["by-pkg"]\<close> maps a requiring package to its maintainers.
  The maintainer lookup \<^verbatim>\<open>get_maintainers\<close> is a request to the web site: it is the
  parameter \<open>gm\<close>, a function of repository, architecture and name. Python does not fix
  the order in which a \<^verbatim>\<open>set\<close> is iterated: it is the parameter \<open>iter\<close>, which lists the
  elements of a set.
\<close>

type_synonym by_pkg = "string \<rightharpoonup> string list"

type_synonym required = "string \<rightharpoonup> by_pkg"

type_synonym lookup_fn = "string \<Rightarrow> string \<Rightarrow> string \<Rightarrow> string list"

definition set_required_by :: "string \<Rightarrow> string set \<Rightarrow> index \<Rightarrow> error + index" where
  "set_required_by orphan rb packages =
     bindE (lookup packages orphan) (\<lambda>_.
     Inr (AList.map_entry orphan (\<lambda>p. p\<lparr>required_by := Some rb\<rparr>) packages))"

definition get_required_by :: "index \<Rightarrow> string \<Rightarrow> error + string set" where
  "get_required_by packages orphan =
     bindE (lookup packages orphan) (\<lambda>p.
     case required_by p of None \<Rightarrow> Inl KeyError | Some rb \<Rightarrow> Inr rb)"

definition set_by_pkg :: "string \<Rightarrow> string \<Rightarrow> string list \<Rightarrow> required \<Rightarrow> error + required" where
  "set_by_pkg orphan pkg m required_orphans =
     bindE (getitem required_orphans orphan) (\<lambda>bp.
     Inr (required_orphans(orphan \<mapsto> bp(pkg \<mapsto> m))))"

text \<open>Lines 173 to 182, for one requiring package.\<close>

definition maintainer_step ::
  "lookup_fn \<Rightarrow> string \<Rightarrow> string \<Rightarrow> index \<times> required \<Rightarrow> error + index \<times> required" where
  "maintainer_step gm orphan pkg st =
     (let packages = fst st; required_orphans = snd st
      in bindE (lookup packages pkg) (\<lambda>p.
         case maintainers p of
           None \<Rightarrow>
             (let m = gm (repo p) (arch p) pkg;
                  packages' = AList.map_entry pkg (\<lambda>q. q\<lparr>maintainers := Some m\<rparr>) packages
              in bindE (set_by_pkg orphan pkg m required_orphans) (\<lambda>ro. Inr (packages', ro)))
         | Some m \<Rightarrow>
             bindE (set_by_pkg orphan pkg m required_orphans) (\<lambda>ro. Inr (packages, ro))))"

text \<open>Lines 165 to 182, for one orphan.\<close>

definition orphan_step ::
  "lookup_fn \<Rightarrow> (string set \<Rightarrow> string list) \<Rightarrow> string set \<Rightarrow> string \<Rightarrow>
   index \<times> string set \<times> required \<Rightarrow> error + index \<times> string set \<times> required" where
  "orphan_step gm iter archweb_orphans orphan st =
     (case st of (packages, unneeded, required_orphans) \<Rightarrow>
        bindE (what_requires packages orphan) (\<lambda>rb.
        bindE (set_required_by orphan rb packages) (\<lambda>packages1.
        bindE (get_required_by packages1 orphan) (\<lambda>rb1.
        if rb1 \<subseteq> archweb_orphans then
          Inr (packages1, insert orphan unneeded, required_orphans)
        else
          bindE (get_required_by packages1 orphan) (\<lambda>rb2.
          bindE (for_each (maintainer_step gm orphan) (iter rb2)
                   (packages1, required_orphans(orphan \<mapsto> Map.empty))) (\<lambda>(packages2, ro).
          Inr (packages2, unneeded, ro)))))))"

text \<open>
  Lines 161 to 182 of \<^verbatim>\<open>main\<close>, from the index and the orphan set that the two downloads
  return, up to the report; the results are \<^verbatim>\<open>unneeded\<close> and \<^verbatim>\<open>required_orphans\<close>.
\<close>

definition main ::
  "lookup_fn \<Rightarrow> (string set \<Rightarrow> string list) \<Rightarrow> index \<Rightarrow> string set \<Rightarrow>
   error + string set \<times> required" where
  "main gm iter packages archweb_orphans =
     bindE (find_unneeded_orphans packages archweb_orphans) (\<lambda>unneeded.
     bindE (for_each (orphan_step gm iter archweb_orphans)
              (iter (archweb_orphans - unneeded))
              (packages, unneeded, Map.empty)) (\<lambda>(packages', unneeded', required_orphans).
     Inr (unneeded', required_orphans)))"

subsection \<open>Reference definitions\<close>

text \<open>
  The block-text parser as the specification words it: a marker line opens a block under
  its lowercased name; the values of the block are the non-blank lines, stripped, up to
  the next marker; lines before the first marker belong to no block; a later block of the
  same name replaces the earlier one.
\<close>

definition value_lines :: "string list \<Rightarrow> string list" where
  "value_lines ls =
     filter (\<lambda>l. l \<noteq> []) (map strip (takeWhile (\<lambda>l. \<not> is_marker (strip l)) ls))"

fun spec_blocks :: "string list \<Rightarrow> (string \<times> string list) list" where
  "spec_blocks [] = []"
| "spec_blocks (l # ls) =
     (if is_marker (strip l) then (block_name (strip l), value_lines ls) # spec_blocks ls
      else spec_blocks ls)"

definition parse_desc_spec :: "string list \<Rightarrow> store" where
  "parse_desc_spec ls = map_of (rev (spec_blocks ls))"

definition named_markers :: "string list \<Rightarrow> bool" where
  "named_markers ls = (\<forall>l\<in>set ls. is_marker (strip l) \<longrightarrow> block_name (strip l) \<noteq> [])"

text \<open>
  The blocks as the loop of \<^verbatim>\<open>parse_desc\<close> fills them: the same, except that a block of the
  empty name keeps no value.
\<close>

definition kept_lines :: "string \<Rightarrow> string list \<Rightarrow> string list" where
  "kept_lines b ls = (if b = [] then [] else value_lines ls)"

fun kept_blocks :: "string list \<Rightarrow> (string \<times> string list) list" where
  "kept_blocks [] = []"
| "kept_blocks (l # ls) =
     (if is_marker (strip l)
      then (block_name (strip l), kept_lines (block_name (strip l)) ls) # kept_blocks ls
      else kept_blocks ls)"

definition parse_desc_kept :: "string list \<Rightarrow> store" where
  "parse_desc_kept ls = map_of (rev (kept_blocks ls))"

text \<open>The part of an entry before its first colon, and before its first constraint character.\<close>

definition before_colon :: "string \<Rightarrow> string" where
  "before_colon e = takeWhile (\<lambda>c. c \<noteq> CHR '':'') e"

definition before_constraint :: "string \<Rightarrow> string" where
  "before_constraint e = takeWhile (\<lambda>c. c \<notin> {CHR ''<'', CHR ''>'', CHR ''=''}) e"

text \<open>
  The orphan classifier as the specification words it, on an index \<open>I\<close>: the names
  referenced by any of the four fields of any package, and the packages that name \<open>x\<close>
  in one of their three hard dependency fields.
\<close>

definition keys :: "index \<Rightarrow> string set" where
  "keys pkgs = fst ` set pkgs"

definition field_of :: "index \<Rightarrow> string \<Rightarrow> string \<Rightarrow> string set" where
  "field_of pkgs k f =
     (case map_of pkgs k of
        None \<Rightarrow> {}
      | Some p \<Rightarrow> (case deps p f of None \<Rightarrow> {} | Some s \<Rightarrow> s))"

definition all_deps :: "index \<Rightarrow> string set" where
  "all_deps pkgs = (\<Union>k\<in>keys pkgs. \<Union>f\<in>set pkgfields. field_of pkgs k f)"

definition requirers :: "index \<Rightarrow> string \<Rightarrow> string set" where
  "requirers pkgs x = {k \<in> keys pkgs. \<exists>f\<in>set deptypes. x \<in> field_of pkgs k f}"

text \<open>
  Each of the four dependency fields is present: in every entry of the dictionary, and in
  every package that a lookup by key returns.
\<close>

definition fields_present :: "index \<Rightarrow> bool" where
  "fields_present pkgs = (\<forall>(k, p)\<in>set pkgs. \<forall>f\<in>set pkgfields. deps p f \<noteq> None)"

definition wf_index :: "index \<Rightarrow> bool" where
  "wf_index pkgs =
     (\<forall>k\<in>keys pkgs. \<forall>f\<in>set pkgfields.
        case map_of pkgs k of None \<Rightarrow> False | Some p \<Rightarrow> deps p f \<noteq> None)"

text \<open>An iteration order lists exactly the elements of every finite set.\<close>

definition sound_order :: "(string set \<Rightarrow> string list) \<Rightarrow> bool" where
  "sound_order iter = (\<forall>s. finite s \<longrightarrow> set (iter s) = s)"

text \<open>Every orphan that some dependency field references is a package of the index.\<close>

definition orphans_indexed :: "index \<Rightarrow> string set \<Rightarrow> bool" where
  "orphans_indexed pkgs orphans = (orphans \<inter> all_deps pkgs \<subseteq> keys pkgs)"

text \<open>The maintainers reported for a package: those already recorded, else those looked up.\<close>

definition maintainers_of :: "lookup_fn \<Rightarrow> index \<Rightarrow> string \<Rightarrow> string list" where
  "maintainers_of gm pkgs k =
     (case map_of pkgs k of
        None \<Rightarrow> []
      | Some p \<Rightarrow> (case maintainers p of Some m \<Rightarrow> m | None \<Rightarrow> gm (repo p) (arch p) k))"

text \<open>The entry \<^verbatim>\<open>by-pkg\<close> of a required orphan.\<close>

definition by_pkg_of :: "lookup_fn \<Rightarrow> index \<Rightarrow> string \<Rightarrow> by_pkg" where
  "by_pkg_of gm I x = (\<lambda>k. if k \<in> requirers I x then Some (maintainers_of gm I k) else None)"

definition spec_unneeded :: "index \<Rightarrow> string set \<Rightarrow> string set" where
  "spec_unneeded pkgs orphans =
     {x \<in> orphans. x \<notin> all_deps pkgs \<or> requirers pkgs x \<subseteq> orphans}"

definition spec_required :: "lookup_fn \<Rightarrow> index \<Rightarrow> string set \<Rightarrow> required" where
  "spec_required gm pkgs orphans =
     (\<lambda>x. if x \<in> orphans \<and> x \<in> all_deps pkgs \<and> \<not> requirers pkgs x \<subseteq> orphans
          then Some (by_pkg_of gm pkgs x)
          else None)"

text \<open>
  The loop of \<^verbatim>\<open>main\<close> annotates \<^verbatim>\<open>packages\<close> in place. A later state \<open>pkgs\<close> of the index
  \<open>I\<close> has the same packages with the same fields, and records for a package either
  the maintainers \<open>I\<close> records or, where \<open>I\<close> records none, those looked up.
\<close>

definition tracks :: "lookup_fn \<Rightarrow> index \<Rightarrow> index \<Rightarrow> bool" where
  "tracks gm I pkgs =
     (\<forall>k. case map_of I k of
            None \<Rightarrow> map_of pkgs k = None
          | Some p0 \<Rightarrow>
              (\<exists>p. map_of pkgs k = Some p \<and> deps p = deps p0 \<and> repo p = repo p0 \<and>
                   arch p = arch p0 \<and>
                   (maintainers p = maintainers p0 \<or>
                    maintainers p0 = None \<and> maintainers p = Some (gm (repo p0) (arch p0) k))))"

text \<open>The same as \<open>wf_index\<close>, over all keys.\<close>

definition wfm :: "index \<Rightarrow> bool" where
  "wfm pkgs = (\<forall>k p. map_of pkgs k = Some p \<longrightarrow> (\<forall>f\<in>set pkgfields. deps p f \<noteq> None))"


subsection \<open>Example data\<close>

text \<open>
  A package with the given hard and optional dependencies, a maintainer lookup, and a
  repository database with one package directory and its metadata record.
\<close>

definition example_pkg :: "string set \<Rightarrow> string set \<Rightarrow> package" where
  "example_pkg hard opt =
     \<lparr>repo = ''extra'', arch = ''x86_64'', pkgbase = None,
      deps = [''depends'' \<mapsto> hard, ''makedepends'' \<mapsto> {}, ''optdepends'' \<mapsto> opt,
              ''checkdepends'' \<mapsto> {}],
      required_by = None, maintainers = None\<rparr>"

definition example_gm :: lookup_fn where
  "example_gm r a n = [''dev-'' @ n]"

definition example_db :: archive where
  "example_db =
     [\<lparr>tar_name = ''foo-1.0-1'', tar_isdir = True, tar_data = []\<rparr>,
      \<lparr>tar_name = ''foo-1.0-1/desc'', tar_isdir = False,
       tar_data = ''%NAME%\<newline>foo\<newline>\<newline>%ARCH%\<newline>x86_64\<newline>\<newline>%DEPENDS%\<newline>bar>=1.2\<newline>\<newline>%OPTDEPENDS%\<newline>baz: for extras\<newline>''\<rparr>]"

subsection \<open>The block-text parser refines its reference\<close>

lemma is_marker_nonempty: "is_marker l \<Longrightarrow> l \<noteq> []"
  by (auto simp: is_marker_def startswith_def)

lemma value_lines_Cons:
  "value_lines (l # ls) =
     (if is_marker (strip l) then []
      else if strip l = [] then value_lines ls else strip l # value_lines ls)"
  by (simp add: value_lines_def)

lemma bindE_Inr [simp]: "bindE (Inr v) f = f v"
  by (simp add: bindE_def)

lemma bindE_Inl [simp]: "bindE (Inl e) f = Inl e"
  by (simp add: bindE_def)

lemma map_add_single: "st ++ ([k \<mapsto> v] ++ m) = st(k \<mapsto> v) ++ m"
  by (rule ext) (simp add: map_add_def split: option.splits)

lemma desc_loop_open:
  assumes "\<forall>l\<in>set ls. is_marker (strip l) \<longrightarrow> block_name (strip l) \<noteq> []"
    and "b \<noteq> []" and "st b = Some vs"
  shows "\<exists>bn. for_each desc_line ls (st, Some b) =
           Inr (st(b \<mapsto> vs @ value_lines ls) ++ parse_desc_spec ls, bn)"
  using assms
proof (induction ls arbitrary: st b vs)
  case Nil
  then show ?case by (simp add: value_lines_def parse_desc_spec_def fun_upd_idem)
next
  case (Cons l ls)
  show ?case
  proof (cases "strip l = []")
    case True
    then have nm: "\<not> is_marker (strip l)" using is_marker_nonempty by blast
    have "for_each desc_line (l # ls) (st, Some b) = for_each desc_line ls (st, Some b)"
      using True by (simp add: desc_line_def)
    moreover have "value_lines (l # ls) = value_lines ls" "parse_desc_spec (l # ls) = parse_desc_spec ls"
      using True nm by (simp_all add: value_lines_Cons parse_desc_spec_def)
    ultimately show ?thesis using Cons.IH[of b st vs] Cons.prems by simp
  next
    case False
    show ?thesis
    proof (cases "is_marker (strip l)")
      case True
      define b' where "b' = block_name (strip l)"
      have b': "b' \<noteq> []" using Cons.prems(1) True by (simp add: b'_def)
      have step: "for_each desc_line (l # ls) (st, Some b) = for_each desc_line ls (st(b' \<mapsto> []), Some b')"
        using True False by (simp add: desc_line_def b'_def Let_def)
      have "\<exists>bn. for_each desc_line ls (st(b' \<mapsto> []), Some b') =
           Inr ((st(b' \<mapsto> []))(b' \<mapsto> [] @ value_lines ls) ++ parse_desc_spec ls, bn)"
        by (rule Cons.IH) (use Cons.prems(1) b' in simp_all)
      then have "\<exists>bn. for_each desc_line ls (st(b' \<mapsto> []), Some b') =
           Inr (st(b' \<mapsto> value_lines ls) ++ parse_desc_spec ls, bn)"
        by simp
      moreover have "st(b \<mapsto> vs @ value_lines (l # ls)) ++ parse_desc_spec (l # ls)
          = st(b' \<mapsto> value_lines ls) ++ parse_desc_spec ls"
        using True Cons.prems(3)
        by (simp add: value_lines_Cons parse_desc_spec_def b'_def fun_upd_idem map_add_single)
      ultimately show ?thesis by (simp only: step)
    next
      case nm: False
      have step: "for_each desc_line (l # ls) (st, Some b) = for_each desc_line ls (st(b \<mapsto> vs @ [strip l]), Some b)"
        using nm False Cons.prems by (simp add: desc_line_def Let_def)
      have "\<exists>bn. for_each desc_line ls (st(b \<mapsto> vs @ [strip l]), Some b) =
           Inr ((st(b \<mapsto> vs @ [strip l]))(b \<mapsto> (vs @ [strip l]) @ value_lines ls)
                  ++ parse_desc_spec ls, bn)"
        by (rule Cons.IH) (use Cons.prems in simp_all)
      then have "\<exists>bn. for_each desc_line ls (st(b \<mapsto> vs @ [strip l]), Some b) =
           Inr (st(b \<mapsto> vs @ strip l # value_lines ls) ++ parse_desc_spec ls, bn)"
        by simp
      moreover have "value_lines (l # ls) = strip l # value_lines ls" "parse_desc_spec (l # ls) = parse_desc_spec ls"
        using False nm by (simp_all add: value_lines_Cons parse_desc_spec_def)
      ultimately show ?thesis by (simp only: step)
    qed
  qed
qed

lemma desc_loop_closed:
  assumes "\<forall>l\<in>set ls. is_marker (strip l) \<longrightarrow> block_name (strip l) \<noteq> []"
  shows "\<exists>bn. for_each desc_line ls (st, None) = Inr (st ++ parse_desc_spec ls, bn)"
  using assms
proof (induction ls)
  case Nil
  then show ?case by (simp add: parse_desc_spec_def)
next
  case (Cons l ls)
  show ?case
  proof (cases "is_marker (strip l)")
    case True
    define b' where "b' = block_name (strip l)"
    have b': "b' \<noteq> []" using Cons.prems(1) True by (simp add: b'_def)
    have ne: "strip l \<noteq> []" using True is_marker_nonempty by blast
    have step: "for_each desc_line (l # ls) (st, None) = for_each desc_line ls (st(b' \<mapsto> []), Some b')"
      using True ne by (simp add: desc_line_def b'_def Let_def)
    have "\<exists>bn. for_each desc_line ls (st(b' \<mapsto> []), Some b') =
           Inr ((st(b' \<mapsto> []))(b' \<mapsto> [] @ value_lines ls) ++ parse_desc_spec ls, bn)"
      by (rule desc_loop_open) (use Cons.prems b' in simp_all)
    then have "\<exists>bn. for_each desc_line ls (st(b' \<mapsto> []), Some b') =
           Inr (st(b' \<mapsto> value_lines ls) ++ parse_desc_spec ls, bn)"
      by simp
    moreover have "st ++ parse_desc_spec (l # ls) = st(b' \<mapsto> value_lines ls) ++ parse_desc_spec ls"
      using True
      by (simp add: parse_desc_spec_def b'_def map_add_single)
    ultimately show ?thesis by (simp only: step)
  next
    case False
    have "for_each desc_line (l # ls) (st, None) = for_each desc_line ls (st, None)"
      using False by (simp add: desc_line_def Let_def)
    moreover have "parse_desc_spec (l # ls) = parse_desc_spec ls"
      using False by (simp add: parse_desc_spec_def)
    ultimately show ?thesis using Cons by simp
  qed
qed

lemma parse_desc_refines:
  assumes "\<forall>l\<in>set ls. is_marker (strip l) \<longrightarrow> block_name (strip l) \<noteq> []"
  shows "parse_desc ls = Inr (parse_desc_spec ls)"
proof -
  from desc_loop_closed[OF assms, of Map.empty]
  obtain bn where "for_each desc_line ls (Map.empty, None) = Inr (parse_desc_spec ls, bn)" by auto
  then show ?thesis by (simp add: parse_desc_def)
qed

lemma parse_desc_total_aux:
  "(case bn of None \<Rightarrow> True | Some b \<Rightarrow> st b \<noteq> None) \<Longrightarrow>
   \<exists>st' bn'. for_each desc_line ls (st, bn) = Inr (st', bn')"
proof (induction ls arbitrary: st bn)
  case Nil
  then show ?case by simp
next
  case (Cons l ls)
  have "\<exists>st1 bn1. desc_line l (st, bn) = Inr (st1, bn1) \<and> (case bn1 of None \<Rightarrow> True | Some b \<Rightarrow> st1 b \<noteq> None)"
    using Cons.prems by (auto simp: desc_line_def Let_def split: option.splits)
  then show ?case using Cons.IH by fastforce
qed

lemma parse_desc_total: "\<exists>st. parse_desc ls = Inr st"
  using parse_desc_total_aux[where bn = None and st = Map.empty and ls = ls] by (auto simp: parse_desc_def)

subsection \<open>The block-text parser on every input\<close>


lemma desc_loop_open_any:
  assumes "st b = Some vs"
  shows "\<exists>bn. for_each desc_line ls (st, Some b) =
           Inr (st(b \<mapsto> vs @ kept_lines b ls) ++ parse_desc_kept ls, bn)"
  using assms
proof (induction ls arbitrary: st b vs)
  case Nil
  then show ?case by (simp add: kept_lines_def value_lines_def parse_desc_kept_def fun_upd_idem)
next
  case (Cons l ls)
  show ?case
  proof (cases "strip l = []")
    case True
    then have nm: "\<not> is_marker (strip l)" using is_marker_nonempty by blast
    have step: "for_each desc_line (l # ls) (st, Some b) = for_each desc_line ls (st, Some b)"
      using True by (simp add: desc_line_def)
    have eq: "kept_lines b (l # ls) = kept_lines b ls" "parse_desc_kept (l # ls) = parse_desc_kept ls"
      using True nm by (simp_all add: kept_lines_def value_lines_Cons parse_desc_kept_def)
    show ?thesis unfolding step eq by (rule Cons.IH[where st = st and b = b and vs = vs]) (rule Cons.prems)
  next
    case False
    show ?thesis
    proof (cases "is_marker (strip l)")
      case True
      define b' where "b' = block_name (strip l)"
      have step: "for_each desc_line (l # ls) (st, Some b) =
                    for_each desc_line ls (st(b' \<mapsto> []), Some b')"
        using True False by (simp add: desc_line_def b'_def Let_def)
      have "\<exists>bn. for_each desc_line ls (st(b' \<mapsto> []), Some b') =
           Inr ((st(b' \<mapsto> []))(b' \<mapsto> [] @ kept_lines b' ls) ++ parse_desc_kept ls, bn)"
        by (rule Cons.IH) simp
      then have ih: "\<exists>bn. for_each desc_line ls (st(b' \<mapsto> []), Some b') =
           Inr (st(b' \<mapsto> kept_lines b' ls) ++ parse_desc_kept ls, bn)"
        by simp
      have eq: "st(b \<mapsto> vs @ kept_lines b (l # ls)) ++ parse_desc_kept (l # ls)
          = st(b' \<mapsto> kept_lines b' ls) ++ parse_desc_kept ls"
        using True Cons.prems
        by (simp add: kept_lines_def value_lines_Cons parse_desc_kept_def b'_def fun_upd_idem
              map_add_single)
      show ?thesis unfolding step eq by (rule ih)
    next
      case nm: False
      show ?thesis
      proof (cases "b = []")
        case True
        have step: "for_each desc_line (l # ls) (st, Some b) = for_each desc_line ls (st, Some b)"
          using nm False True by (simp add: desc_line_def Let_def)
        have eq: "kept_lines b (l # ls) = kept_lines b ls"
          "parse_desc_kept (l # ls) = parse_desc_kept ls"
          using nm True by (simp_all add: kept_lines_def parse_desc_kept_def)
        show ?thesis unfolding step eq by (rule Cons.IH[where st = st and b = b and vs = vs]) (rule Cons.prems)
      next
        case ne: False
        have step: "for_each desc_line (l # ls) (st, Some b) =
                      for_each desc_line ls (st(b \<mapsto> vs @ [strip l]), Some b)"
          using nm False ne Cons.prems by (simp add: desc_line_def Let_def)
        have "\<exists>bn. for_each desc_line ls (st(b \<mapsto> vs @ [strip l]), Some b) =
             Inr ((st(b \<mapsto> vs @ [strip l]))(b \<mapsto> (vs @ [strip l]) @ kept_lines b ls)
                    ++ parse_desc_kept ls, bn)"
          by (rule Cons.IH) simp
        then have ih: "\<exists>bn. for_each desc_line ls (st(b \<mapsto> vs @ [strip l]), Some b) =
             Inr (st(b \<mapsto> vs @ strip l # kept_lines b ls) ++ parse_desc_kept ls, bn)"
          by simp
        have eq: "kept_lines b (l # ls) = strip l # kept_lines b ls"
          "parse_desc_kept (l # ls) = parse_desc_kept ls"
          using False nm ne by (simp_all add: kept_lines_def value_lines_Cons parse_desc_kept_def)
        show ?thesis unfolding step eq by (rule ih)
      qed
    qed
  qed
qed

lemma desc_loop_closed_any:
  "\<exists>bn. for_each desc_line ls (st, None) = Inr (st ++ parse_desc_kept ls, bn)"
proof (induction ls)
  case Nil
  then show ?case by (simp add: parse_desc_kept_def)
next
  case (Cons l ls)
  show ?case
  proof (cases "is_marker (strip l)")
    case True
    define b' where "b' = block_name (strip l)"
    have ne: "strip l \<noteq> []" using True is_marker_nonempty by blast
    have step: "for_each desc_line (l # ls) (st, None) =
                  for_each desc_line ls (st(b' \<mapsto> []), Some b')"
      using True ne by (simp add: desc_line_def b'_def Let_def)
    have "\<exists>bn. for_each desc_line ls (st(b' \<mapsto> []), Some b') =
           Inr ((st(b' \<mapsto> []))(b' \<mapsto> [] @ kept_lines b' ls) ++ parse_desc_kept ls, bn)"
      by (rule desc_loop_open_any) simp
    then have ih: "\<exists>bn. for_each desc_line ls (st(b' \<mapsto> []), Some b') =
           Inr (st(b' \<mapsto> kept_lines b' ls) ++ parse_desc_kept ls, bn)"
      by simp
    have eq: "st ++ parse_desc_kept (l # ls) = st(b' \<mapsto> kept_lines b' ls) ++ parse_desc_kept ls"
      using True by (simp add: parse_desc_kept_def b'_def map_add_single)
    show ?thesis unfolding step eq by (rule ih)
  next
    case False
    have step: "for_each desc_line (l # ls) (st, None) = for_each desc_line ls (st, None)"
      using False by (simp add: desc_line_def Let_def)
    have eq: "parse_desc_kept (l # ls) = parse_desc_kept ls"
      using False by (simp add: parse_desc_kept_def)
    show ?thesis unfolding step eq by (rule Cons.IH)
  qed
qed

lemma parse_desc_kept_eq: "parse_desc ls = Inr (parse_desc_kept ls)"
proof -
  from desc_loop_closed_any[of ls Map.empty]
  obtain bn where "for_each desc_line ls (Map.empty, None) = Inr (parse_desc_kept ls, bn)" by auto
  then show ?thesis by (simp add: parse_desc_def)
qed

lemma kept_blocks_map:
  "kept_blocks ls = map (\<lambda>(n, vs). (n, if n = [] then [] else vs)) (spec_blocks ls)"
  by (induction ls) (simp_all add: kept_lines_def)

lemma map_of_map_keyed:
  "map_of (map (\<lambda>(n, vs). (n, g n vs)) xs) k = map_option (g k) (map_of xs k)"
  by (induction xs) auto

lemma parse_desc_kept_spec:
  "parse_desc_kept ls = (parse_desc_spec ls)([] := map_option (\<lambda>vs. []) (parse_desc_spec ls []))"
proof (rule ext)
  fix k
  have "parse_desc_kept ls k =
          map_option (\<lambda>vs. if k = [] then [] else vs) (parse_desc_spec ls k)"
    unfolding parse_desc_kept_def parse_desc_spec_def kept_blocks_map rev_map
    by (rule map_of_map_keyed[where g = "\<lambda>n vs. if n = [] then [] else vs"])
  then show "parse_desc_kept ls k =
      ((parse_desc_spec ls)([] := map_option (\<lambda>vs. []) (parse_desc_spec ls []))) k"
    by (cases "parse_desc_spec ls k") auto
qed

lemma parse_desc_agrees:
  "parse_desc ls = Inr (parse_desc_spec ls) \<longleftrightarrow>
     parse_desc_spec ls [] = None \<or> parse_desc_spec ls [] = Some []"
proof -
  have "(parse_desc_spec ls)([] := map_option (\<lambda>vs. []) (parse_desc_spec ls [])) = parse_desc_spec ls
        \<longleftrightarrow> parse_desc_spec ls [] = None \<or> parse_desc_spec ls [] = Some []"
    by (cases "parse_desc_spec ls []") (auto simp: fun_upd_idem_iff)
  then show ?thesis by (simp add: parse_desc_kept_eq parse_desc_kept_spec)
qed

subsection \<open>The classifier in closed form\<close>



lemma for_each_pure:
  "(\<And>x s. x \<in> set xs \<Longrightarrow> body x s = Inr (g x s)) \<Longrightarrow> for_each body xs s = Inr (fold g xs s)"
  by (induction xs arbitrary: s) simp_all

lemma fold_union: "fold (\<lambda>x s. s \<union> F x) xs s = s \<union> (\<Union>x\<in>set xs. F x)"
  by (induction xs arbitrary: s) auto

lemma fold_insert_if:
  "fold (\<lambda>x s. if P x then insert x s else s) xs s = s \<union> {x \<in> set xs. P x}"
  by (induction xs arbitrary: s) auto

lemma keys_dom: "keys pkgs = dom (map_of pkgs)"
  by (simp add: keys_def dom_map_of_conv_image_fst)

lemma wf_index_iff: "wf_index pkgs \<longleftrightarrow> wfm pkgs"
proof
  assume w: "wf_index pkgs"
  show "wfm pkgs"
    unfolding wfm_def
  proof (intro allI impI ballI)
    fix k p f
    assume kp: "map_of pkgs k = Some p" and f: "f \<in> set pkgfields"
    then have "k \<in> keys pkgs" by (auto simp: keys_dom)
    with w f have "case map_of pkgs k of None \<Rightarrow> False | Some p \<Rightarrow> deps p f \<noteq> None"
      unfolding wf_index_def by blast
    with kp show "deps p f \<noteq> None" by simp
  qed
next
  assume w: "wfm pkgs"
  show "wf_index pkgs"
    unfolding wf_index_def
  proof (intro ballI)
    fix k f
    assume "k \<in> keys pkgs" and f: "f \<in> set pkgfields"
    then obtain p where kp: "map_of pkgs k = Some p" by (auto simp: keys_dom)
    with w f have "deps p f \<noteq> None" unfolding wfm_def by blast
    with kp show "case map_of pkgs k of None \<Rightarrow> False | Some p \<Rightarrow> deps p f \<noteq> None"
      by simp
  qed
qed

lemma wf_index_wfm: "wf_index pkgs \<Longrightarrow> wfm pkgs"
  by (simp add: wf_index_iff)

lemma fields_present_wf: "fields_present pkgs \<Longrightarrow> wf_index pkgs"
  unfolding wf_index_iff wfm_def
proof (intro allI impI ballI)
  fix k p f
  assume fp: "fields_present pkgs" and kp: "map_of pkgs k = Some p" and f: "f \<in> set pkgfields"
  from kp have "(k, p) \<in> set pkgs" by (rule map_of_SomeD)
  with fp f show "deps p f \<noteq> None" unfolding fields_present_def by blast
qed

lemma getfield_closed:
  assumes "wfm pkgs" "k \<in> keys pkgs" "f \<in> set pkgfields"
  shows "getfield pkgs k f = Inr (field_of pkgs k f)"
proof -
  from assms(2) obtain p where p: "map_of pkgs k = Some p" by (auto simp: keys_dom)
  with assms(1,3) obtain s where "deps p f = Some s" unfolding wfm_def by blast
  with p show ?thesis by (simp add: getfield_def lookup_def getitem_def field_of_def)
qed

lemma find_unneeded_closed:
  assumes "wfm pkgs"
  shows "find_unneeded_orphans pkgs orphans = Inr (orphans - all_deps pkgs)"
proof -
  have inner: "for_each (\<lambda>key required. bindE (getfield pkgs k key) (\<lambda>s. Inr (required \<union> s)))
                 pkgfields r = Inr (r \<union> (\<Union>f\<in>set pkgfields. field_of pkgs k f))"
    if "k \<in> keys pkgs" for k r
  proof -
    have "for_each (\<lambda>key required. bindE (getfield pkgs k key) (\<lambda>s. Inr (required \<union> s)))
            pkgfields r = Inr (fold (\<lambda>key required. required \<union> field_of pkgs k key) pkgfields r)"
      by (rule for_each_pure) (simp add: getfield_closed[OF assms that])
    then show ?thesis by (simp add: fold_union)
  qed
  have "for_each (\<lambda>pkg. for_each (\<lambda>key required.
            bindE (getfield pkgs pkg key) (\<lambda>s. Inr (required \<union> s))) pkgfields) (map fst pkgs) {}
        = Inr (fold (\<lambda>k r. r \<union> (\<Union>f\<in>set pkgfields. field_of pkgs k f)) (map fst pkgs) {})"
    by (rule for_each_pure) (simp add: inner keys_def)
  then show ?thesis
    by (simp add: find_unneeded_orphans_def fold_union all_deps_def keys_def)
qed

lemma deptypes_pkgfields: "f \<in> set deptypes \<Longrightarrow> f \<in> set pkgfields"
  by (auto simp: deptypes_def pkgfields_def)

lemma what_requires_closed:
  assumes "wfm pkgs"
  shows "what_requires pkgs x = Inr (requirers pkgs x)"
proof -
  have inner: "for_each (\<lambda>deptype required_by. bindE (getfield pkgs k deptype) (\<lambda>s.
                   Inr (if x \<in> s then insert k required_by else required_by))) deptypes r
               = Inr (if \<exists>f\<in>set deptypes. x \<in> field_of pkgs k f then insert k r else r)"
    if "k \<in> keys pkgs" for k r
    using getfield_closed[OF assms that]
    by (simp add: deptypes_def pkgfields_def)
  have "for_each (\<lambda>pkg. for_each (\<lambda>deptype required_by. bindE (getfield pkgs pkg deptype) (\<lambda>s.
            Inr (if x \<in> s then insert pkg required_by else required_by))) deptypes) (map fst pkgs) {}
        = Inr (fold (\<lambda>k r. if \<exists>f\<in>set deptypes. x \<in> field_of pkgs k f then insert k r else r)
                 (map fst pkgs) {})"
    by (rule for_each_pure) (simp add: inner keys_def)
  then show ?thesis
    by (simp add: what_requires_def fold_insert_if requirers_def keys_def)
qed


lemma tracks_refl: "tracks gm I I"
  by (auto simp: tracks_def split: option.splits)

lemma tracks_dom: "tracks gm I pkgs \<Longrightarrow> dom (map_of pkgs) = dom (map_of I)"
  unfolding tracks_def by (fastforce split: option.splits simp: dom_def)

lemma tracks_keys: "tracks gm I pkgs \<Longrightarrow> keys pkgs = keys I"
  by (simp add: keys_dom tracks_dom)

lemma tracks_deps:
  "tracks gm I pkgs \<Longrightarrow> map_option deps (map_of pkgs k) = map_option deps (map_of I k)"
proof -
  assume "tracks gm I pkgs"
  then have "case map_of I k of
          None \<Rightarrow> map_of pkgs k = None
        | Some p0 \<Rightarrow> \<exists>p. map_of pkgs k = Some p \<and> deps p = deps p0 \<and> repo p = repo p0 \<and>
              arch p = arch p0 \<and>
              (maintainers p = maintainers p0 \<or>
               maintainers p0 = None \<and> maintainers p = Some (gm (repo p0) (arch p0) k))"
    unfolding tracks_def by blast
  then show ?thesis by (cases "map_of I k") auto
qed

lemma tracks_field_of: "tracks gm I pkgs \<Longrightarrow> field_of pkgs k f = field_of I k f"
  using tracks_deps[of gm I pkgs k]
  by (cases "map_of pkgs k"; cases "map_of I k") (auto simp: field_of_def)

lemma tracks_requirers: "tracks gm I pkgs \<Longrightarrow> requirers pkgs x = requirers I x"
  by (simp add: requirers_def tracks_keys tracks_field_of)

lemma tracks_wfm: "tracks gm I pkgs \<Longrightarrow> wfm I \<Longrightarrow> wfm pkgs"
  unfolding wfm_def
proof (intro allI impI)
  fix k p
  assume t: "tracks gm I pkgs" and w: "\<forall>k p. map_of I k = Some p \<longrightarrow> (\<forall>f\<in>set pkgfields. deps p f \<noteq> None)"
    and p: "map_of pkgs k = Some p"
  from tracks_deps[OF t, of k] p obtain p0 where "map_of I k = Some p0" "deps p0 = deps p"
    by (cases "map_of I k") auto
  with w show "\<forall>f\<in>set pkgfields. deps p f \<noteq> None" by metis
qed

lemma tracks_maintainers:
  assumes "tracks gm I pkgs" "map_of pkgs k = Some p"
  shows "(case maintainers p of Some m \<Rightarrow> m | None \<Rightarrow> gm (repo p) (arch p) k) = maintainers_of gm I k"
proof -
  from assms obtain p0 where p0: "map_of I k = Some p0"
    using tracks_dom[OF assms(1)] by (metis domD domI)
  with assms have "repo p = repo p0 \<and> arch p = arch p0 \<and>
     (maintainers p = maintainers p0 \<or>
      maintainers p0 = None \<and> maintainers p = Some (gm (repo p0) (arch p0) k))"
    unfolding tracks_def by (auto dest!: spec[of _ k])
  with p0 show ?thesis by (auto simp: maintainers_of_def split: option.splits)
qed

lemma tracks_map_entry:
  assumes t: "tracks gm I pkgs"
    and f: "\<And>p. map_of pkgs k = Some p \<Longrightarrow>
              deps (f p) = deps p \<and> repo (f p) = repo p \<and> arch (f p) = arch p \<and>
              (maintainers (f p) = maintainers p \<or>
               maintainers p = None \<and> maintainers (f p) = Some (gm (repo p) (arch p) k))"
  shows "tracks gm I (AList.map_entry k f pkgs)"
  unfolding tracks_def
proof
  fix j
  show "case map_of I j of
          None \<Rightarrow> map_of (AList.map_entry k f pkgs) j = None
        | Some p0 \<Rightarrow>
            \<exists>p. map_of (AList.map_entry k f pkgs) j = Some p \<and> deps p = deps p0 \<and>
                repo p = repo p0 \<and> arch p = arch p0 \<and>
                (maintainers p = maintainers p0 \<or>
                 maintainers p0 = None \<and> maintainers p = Some (gm (repo p0) (arch p0) j))"
  proof (cases "map_of I j")
    case None
    with t have "map_of pkgs j = None" unfolding tracks_def by (auto dest!: spec[of _ j])
    with None show ?thesis by (auto simp: map_of_map_entry)
  next
    case (Some p0)
    with t obtain p where p: "map_of pkgs j = Some p" "deps p = deps p0" "repo p = repo p0"
      "arch p = arch p0" "maintainers p = maintainers p0 \<or>
         maintainers p0 = None \<and> maintainers p = Some (gm (repo p0) (arch p0) j)"
      unfolding tracks_def by (auto dest!: spec[of _ j])
    show ?thesis
    proof (cases "j = k")
      case True
      with f[of p] p Some show ?thesis by (auto simp: map_of_map_entry)
    next
      case False
      with p Some show ?thesis by (simp add: map_of_map_entry)
    qed
  qed
qed

lemma maintainer_step_closed:
  assumes t: "tracks gm I pkgs" and k: "k \<in> keys I" and r: "ro x = Some bp"
  shows "\<exists>pkgs'. maintainer_step gm x k (pkgs, ro) =
           Inr (pkgs', ro(x \<mapsto> bp(k \<mapsto> maintainers_of gm I k))) \<and> tracks gm I pkgs'"
proof -
  from k t obtain p where p: "map_of pkgs k = Some p"
    using tracks_keys[OF t] by (auto simp: keys_dom)
  note m = tracks_maintainers[OF t p]
  show ?thesis
  proof (cases "maintainers p")
    case None
    have "tracks gm I (AList.map_entry k (\<lambda>q. q\<lparr>maintainers := Some (gm (repo p) (arch p) k)\<rparr>) pkgs)"
      by (rule tracks_map_entry[OF t]) (use p None in auto)
    with p None m r show ?thesis
      by (simp add: maintainer_step_def lookup_def getitem_def set_by_pkg_def Let_def)
  next
    case (Some a)
    with p m r t show ?thesis
      by (auto simp add: maintainer_step_def lookup_def getitem_def set_by_pkg_def Let_def)
  qed
qed

lemma maintainer_loop_closed:
  assumes "tracks gm I pkgs" "set ks \<subseteq> keys I" "ro x = Some bp"
  shows "\<exists>pkgs'. for_each (maintainer_step gm x) ks (pkgs, ro) =
           Inr (pkgs', ro(x \<mapsto> (\<lambda>k. if k \<in> set ks then Some (maintainers_of gm I k) else bp k)))
           \<and> tracks gm I pkgs'"
  using assms
proof (induction ks arbitrary: pkgs ro bp)
  case Nil
  then show ?case by (simp add: fun_upd_idem)
next
  case (Cons k ks)
  have "\<exists>pkgs'. maintainer_step gm x k (pkgs, ro) =
           Inr (pkgs', ro(x \<mapsto> bp(k \<mapsto> maintainers_of gm I k))) \<and> tracks gm I pkgs'"
    by (rule maintainer_step_closed) (use Cons.prems in simp_all)
  then obtain pkgs1 where s: "maintainer_step gm x k (pkgs, ro) =
      Inr (pkgs1, ro(x \<mapsto> bp(k \<mapsto> maintainers_of gm I k)))" and t1: "tracks gm I pkgs1"
    by blast
  have "\<exists>pkgs'. for_each (maintainer_step gm x) ks (pkgs1, ro(x \<mapsto> bp(k \<mapsto> maintainers_of gm I k))) =
      Inr (pkgs', (ro(x \<mapsto> bp(k \<mapsto> maintainers_of gm I k)))
             (x \<mapsto> (\<lambda>j. if j \<in> set ks then Some (maintainers_of gm I j)
                        else (bp(k \<mapsto> maintainers_of gm I k)) j)))
      \<and> tracks gm I pkgs'"
    by (rule Cons.IH[where bp = "bp(k \<mapsto> maintainers_of gm I k)"])
       (use t1 Cons.prems(2) in \<open>auto simp: fun_eq_iff\<close>)
  then obtain pkgs2 where
    r: "for_each (maintainer_step gm x) ks (pkgs1, ro(x \<mapsto> bp(k \<mapsto> maintainers_of gm I k))) =
      Inr (pkgs2, (ro(x \<mapsto> bp(k \<mapsto> maintainers_of gm I k)))
             (x \<mapsto> (\<lambda>j. if j \<in> set ks then Some (maintainers_of gm I j)
                        else (bp(k \<mapsto> maintainers_of gm I k)) j)))"
    and t2: "tracks gm I pkgs2"
    by blast
  have eq: "(ro(x \<mapsto> bp(k \<mapsto> maintainers_of gm I k)))
             (x \<mapsto> (\<lambda>j. if j \<in> set ks then Some (maintainers_of gm I j)
                        else (bp(k \<mapsto> maintainers_of gm I k)) j))
      = ro(x \<mapsto> (\<lambda>j. if j \<in> set (k # ks) then Some (maintainers_of gm I j) else bp j))"
    by (auto simp: fun_eq_iff)
  have step: "for_each (maintainer_step gm x) (k # ks) (pkgs, ro) =
      for_each (maintainer_step gm x) ks (pkgs1, ro(x \<mapsto> bp(k \<mapsto> maintainers_of gm I k)))"
    by (simp add: s)
  show ?case unfolding step r eq by (intro exI[of _ pkgs2] conjI refl t2)
qed


lemma finite_requirers: "finite (requirers pkgs x)"
  by (simp add: requirers_def keys_def)

lemma orphan_step_absent:
  assumes t: "tracks gm I pkgs" and w: "wfm I" and x: "x \<notin> keys I"
  shows "orphan_step gm iter orphans x (pkgs, U, R) = Inl KeyError"
proof -
  have "what_requires pkgs x = Inr (requirers I x)"
    using what_requires_closed[OF tracks_wfm[OF t w]] tracks_requirers[OF t] by simp
  moreover have "map_of pkgs x = None"
    using x tracks_keys[OF t] by (auto simp: keys_dom)
  ultimately show ?thesis
    by (simp add: orphan_step_def set_required_by_def lookup_def getitem_def)
qed

lemma orphan_step_closed:
  assumes t: "tracks gm I pkgs" and w: "wfm I" and so: "sound_order iter" and x: "x \<in> keys I"
  shows "\<exists>pkgs'. orphan_step gm iter orphans x (pkgs, U, R) =
           Inr (pkgs', (if requirers I x \<subseteq> orphans then insert x U else U),
                (if requirers I x \<subseteq> orphans then R else R(x \<mapsto> by_pkg_of gm I x)))
           \<and> tracks gm I pkgs'"
proof -
  define rb where "rb = requirers I x"
  define pkgs1 where "pkgs1 = AList.map_entry x (\<lambda>p. p\<lparr>required_by := Some rb\<rparr>) pkgs"
  have wr: "what_requires pkgs x = Inr rb"
    using what_requires_closed[OF tracks_wfm[OF t w]] tracks_requirers[OF t] by (simp add: rb_def)
  from x obtain p where p: "map_of pkgs x = Some p"
    using tracks_keys[OF t] by (auto simp: keys_dom)
  have srb: "set_required_by x rb pkgs = Inr pkgs1"
    using p by (simp add: set_required_by_def lookup_def getitem_def pkgs1_def)
  have t1: "tracks gm I pkgs1"
    unfolding pkgs1_def by (rule tracks_map_entry[OF t]) simp
  have grb: "get_required_by pkgs1 x = Inr rb"
    using p by (simp add: get_required_by_def lookup_def getitem_def pkgs1_def map_of_map_entry)
  show ?thesis
  proof (cases "rb \<subseteq> orphans")
    case True
    have "orphan_step gm iter orphans x (pkgs, U, R) = Inr (pkgs1, insert x U, R)"
      using True by (simp add: orphan_step_def wr srb grb)
    with True t1 show ?thesis by (simp add: rb_def)
  next
    case False
    have fin: "finite rb" by (simp add: rb_def finite_requirers)
    with so have si: "set (iter rb) = rb" by (simp add: sound_order_def)
    have sub: "set (iter rb) \<subseteq> keys I" unfolding si by (auto simp: rb_def requirers_def)
    have "\<exists>pkgs'. for_each (maintainer_step gm x) (iter rb) (pkgs1, R(x \<mapsto> Map.empty)) =
           Inr (pkgs', (R(x \<mapsto> Map.empty))(x \<mapsto> (\<lambda>k. if k \<in> set (iter rb)
                  then Some (maintainers_of gm I k) else Map.empty k)))
           \<and> tracks gm I pkgs'"
      by (rule maintainer_loop_closed[OF t1 sub]) simp
    then obtain pkgs2 where
      l: "for_each (maintainer_step gm x) (iter rb) (pkgs1, R(x \<mapsto> Map.empty)) =
           Inr (pkgs2, (R(x \<mapsto> Map.empty))(x \<mapsto> (\<lambda>k. if k \<in> set (iter rb)
                  then Some (maintainers_of gm I k) else Map.empty k)))"
      and t2: "tracks gm I pkgs2"
      by blast
    have eq: "(R(x \<mapsto> Map.empty))(x \<mapsto> (\<lambda>k. if k \<in> set (iter rb)
                  then Some (maintainers_of gm I k) else Map.empty k)) = R(x \<mapsto> by_pkg_of gm I x)"
      unfolding si by (simp add: by_pkg_of_def rb_def)
    have eq': "R(x \<mapsto> (\<lambda>k. if k \<in> set (iter rb)
                  then Some (maintainers_of gm I k) else None)) = R(x \<mapsto> by_pkg_of gm I x)"
      unfolding si by (simp add: by_pkg_of_def rb_def)
    have "orphan_step gm iter orphans x (pkgs, U, R) = Inr (pkgs2, U, R(x \<mapsto> by_pkg_of gm I x))"
      using False by (simp add: orphan_step_def wr srb grb l eq')
    with False t2 show ?thesis by (simp add: rb_def)
  qed
qed

lemma orphan_loop_closed:
  assumes t: "tracks gm I pkgs" and w: "wfm I" and so: "sound_order iter"
    and xs: "set xs \<subseteq> keys I"
  shows "\<exists>pkgs'. for_each (orphan_step gm iter orphans) xs (pkgs, U, R) =
           Inr (pkgs', U \<union> {x \<in> set xs. requirers I x \<subseteq> orphans},
                (\<lambda>x. if x \<in> set xs \<and> \<not> requirers I x \<subseteq> orphans
                     then Some (by_pkg_of gm I x) else R x))
           \<and> tracks gm I pkgs'"
  using t xs
proof (induction xs arbitrary: pkgs U R)
  case Nil
  then show ?case by simp
next
  case (Cons x xs)
  define U1 where "U1 = (if requirers I x \<subseteq> orphans then insert x U else U)"
  define R1 where "R1 = (if requirers I x \<subseteq> orphans then R else R(x \<mapsto> by_pkg_of gm I x))"
  have "\<exists>pkgs'. orphan_step gm iter orphans x (pkgs, U, R) = Inr (pkgs', U1, R1) \<and> tracks gm I pkgs'"
    unfolding U1_def R1_def
    by (rule orphan_step_closed[OF Cons.prems(1) w so]) (use Cons.prems(2) in simp)
  then obtain pkgs1 where s: "orphan_step gm iter orphans x (pkgs, U, R) = Inr (pkgs1, U1, R1)"
    and t1: "tracks gm I pkgs1"
    by blast
  have "\<exists>pkgs'. for_each (orphan_step gm iter orphans) xs (pkgs1, U1, R1) =
           Inr (pkgs', U1 \<union> {x \<in> set xs. requirers I x \<subseteq> orphans},
                (\<lambda>x. if x \<in> set xs \<and> \<not> requirers I x \<subseteq> orphans
                     then Some (by_pkg_of gm I x) else R1 x))
           \<and> tracks gm I pkgs'"
    by (rule Cons.IH[OF t1]) (use Cons.prems(2) in simp)
  then obtain pkgs2 where
    r: "for_each (orphan_step gm iter orphans) xs (pkgs1, U1, R1) =
           Inr (pkgs2, U1 \<union> {x \<in> set xs. requirers I x \<subseteq> orphans},
                (\<lambda>x. if x \<in> set xs \<and> \<not> requirers I x \<subseteq> orphans
                     then Some (by_pkg_of gm I x) else R1 x))"
    and t2: "tracks gm I pkgs2"
    by blast
  have eqU: "U1 \<union> {x \<in> set xs. requirers I x \<subseteq> orphans} =
             U \<union> {y \<in> set (x # xs). requirers I y \<subseteq> orphans}"
    by (auto simp: U1_def)
  have eqR: "(\<lambda>y. if y \<in> set xs \<and> \<not> requirers I y \<subseteq> orphans
                     then Some (by_pkg_of gm I y) else R1 y) =
             (\<lambda>y. if y \<in> set (x # xs) \<and> \<not> requirers I y \<subseteq> orphans
                     then Some (by_pkg_of gm I y) else R y)"
    by (auto simp: R1_def fun_eq_iff)
  have step: "for_each (orphan_step gm iter orphans) (x # xs) (pkgs, U, R) =
      for_each (orphan_step gm iter orphans) xs (pkgs1, U1, R1)"
    by (simp add: s)
  show ?case unfolding step r eqU eqR by (intro exI[of _ pkgs2] conjI refl t2)
qed

lemma orphan_loop_absent:
  assumes t: "tracks gm I pkgs" and w: "wfm I" and so: "sound_order iter"
    and xs: "\<not> set xs \<subseteq> keys I"
  shows "for_each (orphan_step gm iter orphans) xs (pkgs, U, R) = Inl KeyError"
  using t xs
proof (induction xs arbitrary: pkgs U R)
  case Nil
  then show ?case by simp
next
  case (Cons x xs)
  show ?case
  proof (cases "x \<in> keys I")
    case False
    then show ?thesis using orphan_step_absent[OF Cons.prems(1) w False] by simp
  next
    case True
    from orphan_step_closed[OF Cons.prems(1) w so True, of orphans U R]
    obtain pkgs1 U1 R1 where s: "orphan_step gm iter orphans x (pkgs, U, R) = Inr (pkgs1, U1, R1)"
      and t1: "tracks gm I pkgs1"
      by blast
    have "\<not> set xs \<subseteq> keys I" using True Cons.prems(2) by simp
    from Cons.IH[OF t1 this] show ?thesis by (simp add: s)
  qed
qed

lemma main_closed:
  assumes w: "wf_index I" and fin: "finite orphans" and so: "sound_order iter"
  shows "main gm iter I orphans =
           (if orphans_indexed I orphans
            then Inr (spec_unneeded I orphans, spec_required gm I orphans)
            else Inl KeyError)"
proof -
  note wm = wf_index_wfm[OF w]
  have fu: "find_unneeded_orphans I orphans = Inr (orphans - all_deps I)"
    by (rule find_unneeded_closed[OF wm])
  have "finite (orphans - (orphans - all_deps I))" using fin by simp
  with so have si: "set (iter (orphans - (orphans - all_deps I))) = orphans \<inter> all_deps I"
    by (auto simp: sound_order_def)
  show ?thesis
  proof (cases "orphans_indexed I orphans")
    case True
    then have sub: "set (iter (orphans - (orphans - all_deps I))) \<subseteq> keys I"
      by (simp add: si orphans_indexed_def)
    from orphan_loop_closed[OF tracks_refl wm so sub, of gm orphans "orphans - all_deps I" Map.empty]
    obtain pkgs' where l: "for_each (orphan_step gm iter orphans)
          (iter (orphans - (orphans - all_deps I))) (I, orphans - all_deps I, Map.empty) =
        Inr (pkgs', (orphans - all_deps I) \<union>
               {x \<in> set (iter (orphans - (orphans - all_deps I))). requirers I x \<subseteq> orphans},
             (\<lambda>x. if x \<in> set (iter (orphans - (orphans - all_deps I))) \<and> \<not> requirers I x \<subseteq> orphans
                  then Some (by_pkg_of gm I x) else None))"
      by blast
    have eqU: "(orphans - all_deps I) \<union>
               {x \<in> set (iter (orphans - (orphans - all_deps I))). requirers I x \<subseteq> orphans}
               = spec_unneeded I orphans"
      by (auto simp: si spec_unneeded_def)
    have eqR: "(\<lambda>x. if x \<in> set (iter (orphans - (orphans - all_deps I))) \<and> \<not> requirers I x \<subseteq> orphans
                  then Some (by_pkg_of gm I x) else None) = spec_required gm I orphans"
      by (auto simp: si spec_required_def fun_eq_iff)
    show ?thesis using True by (simp add: main_def fu l eqU eqR)
  next
    case False
    then have "\<not> set (iter (orphans - (orphans - all_deps I))) \<subseteq> keys I"
      by (simp add: si orphans_indexed_def)
    from orphan_loop_absent[OF tracks_refl wm so this]
    show ?thesis using False by (simp add: main_def fu)
  qed
qed

subsection \<open>The normalisation steps and the repository reader\<close>


lemma split_fst: "fst (split sep s) = takeWhile (\<lambda>c. c \<noteq> sep) s"
  by (induction s) (auto split: prod.splits)

lemma takeWhile_twice:
  "takeWhile P (takeWhile Q xs) = takeWhile (\<lambda>x. Q x \<and> P x) xs"
  by (induction xs) auto

lemma takeWhile_absent: "ch \<notin> set dep \<Longrightarrow> takeWhile (\<lambda>c. c \<noteq> ch) dep = dep"
  by (induction dep) auto

lemma version_pass_takeWhile: "version_pass ch tmp = takeWhile (\<lambda>c. c \<noteq> ch) ` tmp"
proof -
  have "(if ch \<in> set dep then fst (split ch dep) else dep) = takeWhile (\<lambda>c. c \<noteq> ch) dep" for dep
    by (simp add: split_fst takeWhile_absent)
  then show ?thesis by (simp add: version_pass_def)
qed

lemma version_passes: "fold version_pass ''<>='' tmp = before_constraint ` tmp"
proof -
  have "takeWhile (\<lambda>c. c \<noteq> CHR ''='') (takeWhile (\<lambda>c. c \<noteq> CHR ''>'') (takeWhile (\<lambda>c. c \<noteq> CHR ''<'') dep))
        = before_constraint dep" for dep
    by (simp add: takeWhile_twice before_constraint_def conj_ac)
  then show ?thesis by (simp add: version_pass_takeWhile image_image)
qed

lemma deps_remove_versions:
  "deps (remove_versions p) key =
     (if key \<in> set pkgfields then map_option ((`) before_constraint) (deps p key) else deps p key)"
  unfolding remove_versions_def version_passes
  by (cases "deps p ''depends''"; cases "deps p ''makedepends''"; cases "deps p ''optdepends''";
      cases "deps p ''checkdepends''")
     (auto simp add: pkgfields_def)

lemma deps_remove_descriptions:
  "deps (remove_descriptions p) key =
     (if key = ''optdepends'' then map_option ((`) before_colon) (deps p key) else deps p key)"
  by (simp add: remove_descriptions_def split_fst before_colon_def[abs_def] split: option.splits)

lemma deps_fill_missing:
  "deps (fill_missing p) key =
     (if key \<in> set pkgfields then Some (case deps p key of None \<Rightarrow> {} | Some s \<Rightarrow> s)
      else deps p key)"
  by (cases "deps p ''depends''"; cases "deps p ''makedepends''"; cases "deps p ''optdepends''";
      cases "deps p ''checkdepends''")
     (auto simp add: fill_missing_def pkgfields_def)


lemma for_each_invariant:
  assumes "P s" and "\<And>x s s'. x \<in> set xs \<Longrightarrow> P s \<Longrightarrow> body x s = Inr s' \<Longrightarrow> P s'"
    and "for_each body xs s = Inr s'"
  shows "P s'"
  using assms
proof (induction xs arbitrary: s)
  case Nil
  then show ?case by simp
next
  case (Cons x xs)
  from Cons.prems(3) obtain s1 where s1: "body x s = Inr s1" "for_each body xs s1 = Inr s'"
    by (cases "body x s") auto
  have "P s1" using Cons.prems(2)[of x s s1] Cons.prems(1) s1(1) by simp
  moreover have "\<And>y t t'. y \<in> set xs \<Longrightarrow> P t \<Longrightarrow> body y t = Inr t' \<Longrightarrow> P t'"
    using Cons.prems(2) by (meson list.set_intros(2))
  ultimately show ?case using s1(2) by (rule Cons.IH)
qed

lemma for_each_fails:
  assumes "x \<in> set xs" and "\<And>s. \<exists>e. body x s = Inl e"
  shows "\<exists>e. for_each body xs s = Inl e"
  using assms(1)
proof (induction xs arbitrary: s)
  case Nil
  then show ?case by simp
next
  case (Cons y ys)
  show ?case
  proof (cases "body y s")
    case (Inl e)
    then show ?thesis by simp
  next
    case (Inr s1)
    with assms(2)[of s] have "y \<noteq> x" by auto
    with Cons.prems have "x \<in> set ys" by simp
    from Cons.IH[OF this, of s1] Inr show ?thesis by simp
  qed
qed

lemma for_each_succeeds:
  assumes "\<And>x s. x \<in> set xs \<Longrightarrow> \<exists>s'. body x s = Inr s'"
  shows "\<exists>s'. for_each body xs s = Inr s'"
  using assms
proof (induction xs arbitrary: s)
  case Nil
  then show ?case by simp
next
  case (Cons y ys)
  from Cons.prems[of y s] obtain s1 where "body y s = Inr s1" by auto
  moreover have "\<exists>s'. for_each body ys s1 = Inr s'"
    by (rule Cons.IH) (use Cons.prems in simp)
  ultimately show ?case by simp
qed

lemma set_update_subset: "set (AList.update k v al) \<subseteq> insert (k, v) (set al)"
  by (induction al) auto

lemma fields_present_update:
  assumes "fields_present pkgs" and "\<forall>f\<in>set pkgfields. deps p f \<noteq> None"
  shows "fields_present (AList.update k p pkgs)"
  using assms set_update_subset[of k p pkgs] unfolding fields_present_def by blast

lemma parse_pkg_fields:
  assumes "parse_pkg reponame repodb pkgid = Inr (n, p)"
  shows "\<forall>f\<in>set pkgfields. deps p f \<noteq> None"
proof -
  from assms obtain q where "p = fill_missing q"
    by (auto simp: parse_pkg_def bindE_def split: sum.splits prod.splits)
  then show ?thesis by (simp add: deps_fill_missing)
qed

lemma parse_member_wf:
  assumes "fields_present pkgs" and "parse_member reponame repodb m pkgs = Inr pkgs'"
  shows "fields_present pkgs'"
proof (cases "tar_isdir m")
  case False
  with assms show ?thesis by (simp add: parse_member_def)
next
  case True
  with assms(2) obtain n p where "parse_pkg reponame repodb (tar_name m) = Inr (n, p)"
    and "pkgs' = AList.update n p pkgs"
    by (auto simp: parse_member_def bindE_def split: sum.splits prod.splits)
  with assms(1) parse_pkg_fields show ?thesis by (metis fields_present_update)
qed

lemma parse_repo_wf:
  assumes "parse_repo dbpath repodb = Inr pkgs"
  shows "fields_present pkgs"
proof -
  define reponame where "reponame = fst (split CHR ''.'' (basename dbpath))"
  from assms have l: "for_each (parse_member reponame repodb) repodb [] = Inr pkgs"
    by (simp add: parse_repo_def reponame_def Let_def)
  have "fields_present []" by (simp add: fields_present_def)
  moreover have "\<And>m s s'. m \<in> set repodb \<Longrightarrow> fields_present s \<Longrightarrow>
      parse_member reponame repodb m s = Inr s' \<Longrightarrow> fields_present s'"
    by (rule parse_member_wf)
  ultimately show ?thesis using l by (rule for_each_invariant)
qed

lemma wf_find_unneeded: "wf_index pkgs \<Longrightarrow> find_unneeded_orphans pkgs orphans = Inr (orphans - all_deps pkgs)"
  by (simp add: find_unneeded_closed wf_index_wfm)

lemma wf_what_requires: "wf_index pkgs \<Longrightarrow> what_requires pkgs x = Inr (requirers pkgs x)"
  by (simp add: what_requires_closed wf_index_wfm)

lemma merge_depends_missing:
  "getmember repodb (path_join pkgid ''depends'') = Inl KeyError \<Longrightarrow>
   merge_depends repodb pkgid p = Inr p"
  by (simp add: merge_depends_def)

lemma merge_depends_regular:
  assumes "getmember repodb (path_join pkgid ''depends'') = Inr m" and "\<not> tar_isdir m"
  shows "\<exists>p'. merge_depends repodb pkgid p = Inr p'"
proof -
  obtain st where "parse_desc (text_lines (tar_data m)) = Inr st"
    using parse_desc_total by blast
  with assms show ?thesis by (simp add: merge_depends_def read_member_def)
qed

lemma parse_pkg_missing_depends:
  assumes "getmember repodb (path_join pkgid ''depends'') = Inl KeyError"
  shows "parse_pkg reponame repodb pkgid =
           bindE (read_desc reponame repodb pkgid) (\<lambda>(n, p).
             Inr (n, fill_missing (remove_versions (remove_descriptions p))))"
  by (cases "read_desc reponame repodb pkgid")
     (auto simp: parse_pkg_def merge_depends_missing[OF assms])

lemma parse_member_missing_desc:
  assumes "tar_isdir m" and "getmember repodb (path_join (tar_name m) ''desc'') = Inl KeyError"
  shows "parse_member reponame repodb m pkgs = Inl KeyError"
  using assms by (simp add: parse_member_def parse_pkg_def read_desc_def)

lemma parse_repo_missing_desc:
  assumes "m \<in> set repodb" and "tar_isdir m"
    and "getmember repodb (path_join (tar_name m) ''desc'') = Inl KeyError"
  shows "\<exists>e. parse_repo dbpath repodb = Inl e"
  unfolding parse_repo_def Let_def
  by (rule for_each_fails[OF assms(1)]) (simp add: parse_member_missing_desc[OF assms(2,3)])

lemma parse_repo_succeeds:
  assumes "\<And>m. m \<in> set repodb \<Longrightarrow> tar_isdir m \<Longrightarrow>
             (\<exists>n p. read_desc (fst (split CHR ''.'' (basename dbpath))) repodb (tar_name m) = Inr (n, p)) \<and>
             (case getmember repodb (path_join (tar_name m) ''depends'') of
                Inl e \<Rightarrow> True | Inr d \<Rightarrow> \<not> tar_isdir d)"
  shows "\<exists>pkgs. parse_repo dbpath repodb = Inr pkgs"
  unfolding parse_repo_def Let_def
proof (rule for_each_succeeds)
  fix m pkgs
  assume m: "m \<in> set repodb"
  define reponame where "reponame = fst (split CHR ''.'' (basename dbpath))"
  show "\<exists>s'. parse_member (fst (split CHR ''.'' (basename dbpath))) repodb m pkgs = Inr s'"
  proof (cases "tar_isdir m")
    case False
    then show ?thesis by (simp add: parse_member_def)
  next
    case True
    from assms[OF m True] obtain n p where
      rd: "read_desc reponame repodb (tar_name m) = Inr (n, p)"
      and dp: "case getmember repodb (path_join (tar_name m) ''depends'') of
                Inl e \<Rightarrow> True | Inr d \<Rightarrow> \<not> tar_isdir d"
      by (auto simp: reponame_def)
    have "\<exists>p'. merge_depends repodb (tar_name m) p = Inr p'"
    proof (cases "getmember repodb (path_join (tar_name m) ''depends'')")
      case (Inl e)
      then have "e = KeyError" by (auto simp: getmember_def split: option.splits)
      with Inl show ?thesis by (simp add: merge_depends_missing)
    next
      case (Inr d)
      with dp show ?thesis by (auto intro: merge_depends_regular)
    qed
    then obtain p' where "merge_depends repodb (tar_name m) p = Inr p'" by blast
    with rd True show ?thesis
      by (simp add: parse_member_def parse_pkg_def reponame_def)
  qed
qed

lemma dict_update_wf:
  assumes "fields_present pkgs" and "fields_present new"
  shows "fields_present (dict_update pkgs new)"
  unfolding dict_update_def
  using assms
proof (induction new arbitrary: pkgs)
  case Nil
  then show ?case by simp
next
  case (Cons kv new)
  obtain k v where kv: "kv = (k, v)" by (cases kv)
  from Cons.prems(2) kv have v: "\<forall>f\<in>set pkgfields. deps v f \<noteq> None" and n: "fields_present new"
    by (auto simp: fields_present_def)
  have "fields_present (AList.update k v pkgs)"
    by (rule fields_present_update[OF Cons.prems(1) v])
  from Cons.IH[OF this n] kv show ?case by simp
qed

lemma get_packages_wf:
  assumes "get_packages dbs = Inr pkgs"
  shows "fields_present pkgs"
proof -
  have "fields_present []" by (simp add: fields_present_def)
  moreover have "\<And>db s s'. db \<in> set dbs \<Longrightarrow> fields_present s \<Longrightarrow>
      (case db of (dbpath, repodb) \<Rightarrow> \<lambda>pkgs.
          bindE (parse_repo dbpath repodb) (\<lambda>new. Inr (dict_update pkgs new))) s = Inr s' \<Longrightarrow>
      fields_present s'"
  proof -
    fix db :: "string \<times> archive" and s s'
    assume s: "fields_present s"
      and r: "(case db of (dbpath, repodb) \<Rightarrow> \<lambda>pkgs.
          bindE (parse_repo dbpath repodb) (\<lambda>new. Inr (dict_update pkgs new))) s = Inr s'"
    obtain dbpath repodb where db: "db = (dbpath, repodb)" by (cases db)
    from r db obtain new where "parse_repo dbpath repodb = Inr new" "s' = dict_update s new"
      by (cases "parse_repo dbpath repodb") auto
    with s show "fields_present s'" by (simp add: dict_update_wf parse_repo_wf)
  qed
  ultimately show ?thesis using assms unfolding get_packages_def by (rule for_each_invariant)
qed

lemma parse_pkg_parts:
  assumes "parse_pkg reponame repodb pkgid = Inr (k, q)"
  shows "\<exists>p0 p1. read_desc reponame repodb pkgid = Inr (k, p0) \<and>
           merge_depends repodb pkgid p0 = Inr p1 \<and>
           q = fill_missing (remove_versions (remove_descriptions p1))"
proof -
  from assms obtain n p0 where r: "read_desc reponame repodb pkgid = Inr (n, p0)"
    by (cases "read_desc reponame repodb pkgid") (auto simp: parse_pkg_def)
  with assms obtain p1 where m: "merge_depends repodb pkgid p0 = Inr p1"
    by (cases "merge_depends repodb pkgid p0") (auto simp: parse_pkg_def)
  from assms r m have "n = k" "q = fill_missing (remove_versions (remove_descriptions p1))"
    by (simp_all add: parse_pkg_def)
  with r m show ?thesis by blast
qed

lemma deps_normalised:
  assumes "f \<in> set pkgfields"
  shows "deps (fill_missing (remove_versions (remove_descriptions p))) f =
           Some (case deps p f of
                   None \<Rightarrow> {}
                 | Some s \<Rightarrow> before_constraint ` (if f = ''optdepends'' then before_colon ` s else s))"
proof (cases "f = ''optdepends''")
  case True
  then show ?thesis
    using assms
    by (cases "deps p ''optdepends''")
       (simp_all add: deps_fill_missing deps_remove_versions deps_remove_descriptions)
next
  case False
  then show ?thesis
    using assms
    by (cases "deps p f")
       (simp_all add: deps_fill_missing deps_remove_versions deps_remove_descriptions)
qed

lemma parse_member_entries:
  assumes "\<forall>(k, q)\<in>set pkgs. \<exists>d\<in>set repodb. tar_isdir d \<and>
             parse_pkg reponame repodb (tar_name d) = Inr (k, q)"
    and "m \<in> set repodb" and "parse_member reponame repodb m pkgs = Inr pkgs'"
  shows "\<forall>(k, q)\<in>set pkgs'. \<exists>d\<in>set repodb. tar_isdir d \<and>
             parse_pkg reponame repodb (tar_name d) = Inr (k, q)"
proof (cases "tar_isdir m")
  case False
  with assms show ?thesis by (simp add: parse_member_def)
next
  case True
  with assms(3) obtain n p where pp: "parse_pkg reponame repodb (tar_name m) = Inr (n, p)"
    and u: "pkgs' = AList.update n p pkgs"
    by (auto simp: parse_member_def bindE_def split: sum.splits prod.splits)
  show ?thesis
  proof (intro ballI, clarify)
    fix k q
    assume "(k, q) \<in> set pkgs'"
    with u set_update_subset[of n p pkgs] have "(k, q) = (n, p) \<or> (k, q) \<in> set pkgs" by blast
    then show "\<exists>d\<in>set repodb. tar_isdir d \<and> parse_pkg reponame repodb (tar_name d) = Inr (k, q)"
    proof
      assume "(k, q) = (n, p)"
      with pp True assms(2) show ?thesis by blast
    next
      assume "(k, q) \<in> set pkgs"
      with assms(1) show ?thesis by blast
    qed
  qed
qed

lemma parse_repo_entries:
  assumes "parse_repo dbpath repodb = Inr pkgs"
  shows "\<forall>(k, q)\<in>set pkgs. \<exists>d\<in>set repodb. tar_isdir d \<and>
           parse_pkg (fst (split CHR ''.'' (basename dbpath))) repodb (tar_name d) = Inr (k, q)"
proof -
  define reponame where "reponame = fst (split CHR ''.'' (basename dbpath))"
  let ?P = "\<lambda>s. \<forall>(k, q)\<in>set s. \<exists>d\<in>set repodb. tar_isdir d \<and>
             parse_pkg reponame repodb (tar_name d) = Inr (k, q)"
  from assms have l: "for_each (parse_member reponame repodb) repodb [] = Inr pkgs"
    by (simp add: parse_repo_def reponame_def Let_def)
  have "?P []" by simp
  moreover have "\<And>m s s'. m \<in> set repodb \<Longrightarrow> ?P s \<Longrightarrow>
      parse_member reponame repodb m s = Inr s' \<Longrightarrow> ?P s'"
    by (rule parse_member_entries)
  ultimately have "?P pkgs" using l by (rule for_each_invariant)
  then show ?thesis by (simp add: reponame_def)
qed

lemma parse_repo_fields:
  assumes "parse_repo dbpath repodb = Inr pkgs" and "(k, q) \<in> set pkgs"
  shows "\<exists>d\<in>set repodb. \<exists>p0 p1. tar_isdir d \<and>
           read_desc (fst (split CHR ''.'' (basename dbpath))) repodb (tar_name d) = Inr (k, p0) \<and>
           merge_depends repodb (tar_name d) p0 = Inr p1 \<and>
           (\<forall>f\<in>set pkgfields.
              (deps p1 f = None \<longrightarrow> deps q f = Some {}) \<and>
              (\<forall>s. deps p1 f = Some s \<longrightarrow>
                 deps q f = Some (before_constraint `
                                   (if f = ''optdepends'' then before_colon ` s else s))))"
proof -
  from parse_repo_entries[OF assms(1)] assms(2) obtain d where d: "d \<in> set repodb" "tar_isdir d"
    and pp: "parse_pkg (fst (split CHR ''.'' (basename dbpath))) repodb (tar_name d) = Inr (k, q)"
    by blast
  from parse_pkg_parts[OF pp] obtain p0 p1 where
    r: "read_desc (fst (split CHR ''.'' (basename dbpath))) repodb (tar_name d) = Inr (k, p0)"
    and m: "merge_depends repodb (tar_name d) p0 = Inr p1"
    and q: "q = fill_missing (remove_versions (remove_descriptions p1))"
    by blast
  have "\<forall>f\<in>set pkgfields.
              (deps p1 f = None \<longrightarrow> deps q f = Some {}) \<and>
              (\<forall>s. deps p1 f = Some s \<longrightarrow>
                 deps q f = Some (before_constraint `
                                   (if f = ''optdepends'' then before_colon ` s else s)))"
    unfolding q by (auto simp: deps_normalised simp del: fun_upd_apply)
  with d r m show ?thesis by blast
qed

subsection \<open>The result of \<^verbatim>\<open>main\<close>\<close>


lemma for_each_error_kind:
  assumes "\<And>x s e. body x s = Inl e \<Longrightarrow> e = KeyError" and "for_each body xs s = Inl e"
  shows "e = KeyError"
  using assms(2)
proof (induction xs arbitrary: s)
  case Nil
  then show ?case by simp
next
  case (Cons x xs)
  show ?case
  proof (cases "body x s")
    case (Inl e')
    with Cons.prems assms(1)[of x s e'] show ?thesis by simp
  next
    case (Inr s1)
    with Cons.prems Cons.IH[of s1] show ?thesis by simp
  qed
qed

lemma getfield_error: "getfield pkgs k f = Inl e \<Longrightarrow> e = KeyError"
  by (auto simp: getfield_def lookup_def getitem_def bindE_def split: option.splits sum.splits)

lemma find_unneeded_fails:
  assumes "\<not> wfm pkgs"
  shows "find_unneeded_orphans pkgs orphans = Inl KeyError"
proof -
  let ?inner = "\<lambda>pkg. for_each (\<lambda>key required.
            bindE (getfield pkgs pkg key) (\<lambda>s. Inr (required \<union> s))) pkgfields"
  from assms obtain k p f where kp: "map_of pkgs k = Some p" and f: "f \<in> set pkgfields"
    and n: "deps p f = None"
    unfolding wfm_def by blast
  have k: "k \<in> set (map fst pkgs)" using kp by (auto dest: map_of_SomeD intro: rev_image_eqI)
  have gf: "getfield pkgs k f = Inl KeyError"
    using kp n by (simp add: getfield_def lookup_def getitem_def)
  have "\<exists>e. ?inner k s = Inl e" for s
    by (rule for_each_fails[OF f]) (simp add: gf)
  then have "\<exists>e. for_each ?inner (map fst pkgs) {} = Inl e"
    by (rule for_each_fails[OF k])
  then obtain e where e: "for_each ?inner (map fst pkgs) {} = Inl e" by blast
  have inner_kind: "e' = KeyError" if "?inner pkg s = Inl e'" for pkg s e'
  proof (rule for_each_error_kind[OF _ that])
    fix key required e''
    assume "bindE (getfield pkgs pkg key) (\<lambda>s. Inr (required \<union> s)) = Inl e''"
    then have "getfield pkgs pkg key = Inl e''" by (cases "getfield pkgs pkg key") auto
    then show "e'' = KeyError" by (rule getfield_error)
  qed
  have "e = KeyError" by (rule for_each_error_kind[OF inner_kind e])
  with e show ?thesis by (simp add: find_unneeded_orphans_def)
qed

lemma main_result:
  assumes fin: "finite orphans" and so: "sound_order iter"
  shows "main gm iter I orphans =
           (if wf_index I \<and> orphans_indexed I orphans
            then Inr (spec_unneeded I orphans, spec_required gm I orphans)
            else Inl KeyError)"
proof (cases "wf_index I")
  case True
  then show ?thesis by (simp add: main_closed[OF True fin so])
next
  case False
  then have "find_unneeded_orphans I orphans = Inl KeyError"
    by (simp add: find_unneeded_fails wf_index_iff)
  with False show ?thesis by (simp add: main_def)
qed

lemma dom_spec_required:
  "dom (spec_required gm I orphans) =
     {x \<in> orphans. x \<in> all_deps I \<and> \<not> requirers I x \<subseteq> orphans}"
  unfolding spec_required_def dom_def by auto

lemma spec_partition:
  "spec_unneeded I orphans \<union> dom (spec_required gm I orphans) = orphans"
  "spec_unneeded I orphans \<inter> dom (spec_required gm I orphans) = {}"
  unfolding dom_spec_required spec_unneeded_def by blast+

subsection \<open>Evaluation on concrete inputs\<close>

lemma lower_keys:
  "lower ''NAME'' = ''name''" "lower ''OTHER'' = ''other''" "lower ''ARCH'' = ''arch''"
  "lower ''DEPENDS'' = ''depends''" "lower ''OPTDEPENDS'' = ''optdepends''"
  "lower ''A'' = ''a''" "lower [] = []"
  by code_simp+

lemmas eval_desc = parse_desc_def text_lines_def desc_line_def strip_def isspace_def is_marker_def
  startswith_def endswith_def block_name_def lower_keys Let_def

lemmas eval_index = keys_def field_of_def all_deps_def requirers_def wf_index_def
  orphans_indexed_def pkgfields_def deptypes_def example_pkg_def

lemmas eval_main = main_def find_unneeded_orphans_def getfield_def lookup_def getitem_def
  orphan_step_def what_requires_def set_required_by_def get_required_by_def
  maintainer_step_def set_by_pkg_def example_gm_def eval_index Let_def

lemmas eval_repo = parse_repo_def parse_member_def parse_pkg_def read_desc_def merge_depends_def
  getmember_def read_member_def path_join_def basename_def example_db_def getitem_def item0_def
  pop_def desc_fields_def remove_descriptions_def remove_versions_def version_pass_def
  fill_missing_def pkgfields_def

lemma sound_sorted: "sound_order sorted_list_of_set"
  by (simp add: sound_order_def)

lemma sound_rev_sorted: "sound_order (\<lambda>s. rev (sorted_list_of_set s))"
  by (simp add: sound_order_def)

lemma example_db_parsed:
  "parse_repo ''/tmp/x/extra.db'' example_db =
     Inr [(''foo'', \<lparr>repo = ''extra'', arch = ''x86_64'', pkgbase = None,
        deps = [''depends'' \<mapsto> {''bar''}, ''optdepends'' \<mapsto> {''baz''}, ''makedepends'' \<mapsto> {},
                ''checkdepends'' \<mapsto> {}],
        required_by = None, maintainers = None\<rparr>)]"
  by (simp add: eval_repo eval_desc)

lemma before_first:
  assumes "\<exists>x\<in>set xs. \<not> P x"
  shows "\<exists>c r. \<not> P c \<and> xs = takeWhile P xs @ c # r \<and> (\<forall>y\<in>set (takeWhile P xs). P y)"
proof -
  from assms have ne: "dropWhile P xs \<noteq> []" by (simp add: dropWhile_eq_Nil_conv)
  then obtain c r where cr: "dropWhile P xs = c # r" by (cases "dropWhile P xs") auto
  from hd_dropWhile[OF ne] cr have "\<not> P c" by simp
  moreover have "xs = takeWhile P xs @ c # r" using takeWhile_dropWhile_id[of P xs] cr by simp
  moreover have "\<forall>y\<in>set (takeWhile P xs). P y" by (auto dest: set_takeWhileD)
  ultimately show ?thesis by blast
qed

lemma takeWhile_all: "\<forall>x\<in>set xs. P x \<Longrightarrow> takeWhile P xs = xs"
  by (induction xs) auto

lemma ex2_conjI: "\<exists>U R. A U R \<Longrightarrow> \<forall>U R. A U R \<longrightarrow> B U R \<Longrightarrow> \<exists>U R. A U R \<and> B U R"
  by blast

subsection \<open>The orphan classifier\<close>

text \<open>
  C1 (amended). For every finite orphan set \<open>O\<close>, every sound iteration order and every
  index \<open>I\<close>: the classifier returns its two results exactly when every package of \<open>I\<close>
  has the four dependency fields and every orphan that some dependency field references
  is a package of \<open>I\<close>; and whenever it returns, the unneeded set and the keys of the
  required mapping partition \<open>O\<close>: their union is \<open>O\<close> and they are disjoint.
\<close>

theorem main_partition:
  assumes "finite orphans" and "sound_order iter"
  shows "((\<exists>U R. main gm iter I orphans = Inr (U, R)) \<longleftrightarrow>
            wf_index I \<and> orphans_indexed I orphans) \<and>
         (\<forall>U R. main gm iter I orphans = Inr (U, R) \<longrightarrow>
            U \<union> dom R = orphans \<and> U \<inter> dom R = {})"
proof -
  note r = main_result[OF assms, of gm I]
  show ?thesis
  proof (cases "wf_index I \<and> orphans_indexed I orphans")
    case True
    with r have "main gm iter I orphans = Inr (spec_unneeded I orphans, spec_required gm I orphans)"
      by simp
    with True show ?thesis by (simp add: spec_partition)
  next
    case False
    with r have "main gm iter I orphans = Inl KeyError" by simp
    with False show ?thesis by simp
  qed
qed

text \<open>
  The index has the packages \<open>a\<close>, which depends on \<open>b\<close>, and \<open>b\<close>; the only orphan is
  \<open>b\<close>.
\<close>

theorem main_partition_witness:
  "finite {''b''} \<and> sound_order sorted_list_of_set \<and>
   wf_index [(''a'', example_pkg {''b''} {}), (''b'', example_pkg {} {})] \<and>
   orphans_indexed [(''a'', example_pkg {''b''} {}), (''b'', example_pkg {} {})] {''b''} \<and>
   (\<exists>U R. main example_gm sorted_list_of_set
            [(''a'', example_pkg {''b''} {}), (''b'', example_pkg {} {})] {''b''} = Inr (U, R) \<and>
          U \<union> dom R = {''b''} \<and> U \<inter> dom R = {})"
proof -
  have w: "wf_index [(''a'', example_pkg {''b''} {}), (''b'', example_pkg {} {})]"
    by (simp add: eval_index)
  have i: "orphans_indexed [(''a'', example_pkg {''b''} {}), (''b'', example_pkg {} {})] {''b''}"
    by (simp add: eval_index)
  have f: "finite {''b''}" by simp
  note mp = main_partition[OF f sound_sorted, of example_gm
      "[(''a'', example_pkg {''b''} {}), (''b'', example_pkg {} {})]"]
  have ex: "\<exists>U R. main example_gm sorted_list_of_set
            [(''a'', example_pkg {''b''} {}), (''b'', example_pkg {} {})] {''b''} = Inr (U, R)"
    by (rule iffD2[OF conjunct1[OF mp] conjI[OF w i]])
  have res: "\<exists>U R. main example_gm sorted_list_of_set
            [(''a'', example_pkg {''b''} {}), (''b'', example_pkg {} {})] {''b''} = Inr (U, R) \<and>
          U \<union> dom R = {''b''} \<and> U \<inter> dom R = {}"
    by (rule ex2_conjI[OF ex conjunct2[OF mp]])
  show ?thesis by (intro conjI; (rule f sound_sorted w i res))
qed

text \<open>
  Without the condition on the index the property fails: package \<open>a\<close> depends on the orphan \<open>o\<close>, which is not in
  the index; \<^verbatim>\<open>packages[orphan]\<close> raises \<^verbatim>\<open>KeyError\<close> and there are no results.
\<close>

theorem main_partition_counterexample:
  "main example_gm sorted_list_of_set [(''a'', example_pkg {''o''} {})] {''o''} = Inl KeyError"
  by (simp add: eval_main)

text \<open>
  C2. Let the orphan \<open>x\<close> of \<open>O\<close> be a package of the index, named by the \<^verbatim>\<open>optdepends\<close>
  of some package and by no \<^verbatim>\<open>depends\<close>, \<^verbatim>\<open>makedepends\<close> or \<^verbatim>\<open>checkdepends\<close>. Then \<open>x\<close>
  is among all dependencies, so it survives the initial filter; its set of hard requirers is
  empty; the step of the loop for \<open>x\<close>, in every state of the packages that the loop
  reaches, adds \<open>x\<close> to the unneeded set; and in every result of the classifier \<open>x\<close> is
  unneeded and has no entry in the required mapping. The classifier returns when every
  referenced orphan is a package of the index.
\<close>

theorem optdepends_only_unneeded:
  assumes "finite orphans" and "sound_order iter" and "wf_index I"
    and "x \<in> orphans" and "x \<in> keys I"
    and "\<exists>k\<in>keys I. x \<in> field_of I k ''optdepends''"
    and "\<forall>k\<in>keys I. \<forall>f\<in>set deptypes. x \<notin> field_of I k f"
  shows "find_unneeded_orphans I orphans = Inr (orphans - all_deps I) \<and>
         x \<notin> orphans - all_deps I \<and>
         what_requires I x = Inr {} \<and>
         (\<forall>pkgs U R. tracks gm I pkgs \<longrightarrow>
            (\<exists>pkgs'. orphan_step gm iter orphans x (pkgs, U, R) = Inr (pkgs', insert x U, R))) \<and>
         (\<forall>U R. main gm iter I orphans = Inr (U, R) \<longrightarrow> x \<in> U \<and> R x = None) \<and>
         (orphans_indexed I orphans \<longrightarrow> (\<exists>U R. main gm iter I orphans = Inr (U, R)))"
proof -
  have req: "requirers I x = {}"
    using assms(7) by (auto simp: requirers_def)
  have ad: "x \<in> all_deps I"
    using assms(6) by (auto simp: all_deps_def pkgfields_def)
  have fu: "find_unneeded_orphans I orphans = Inr (orphans - all_deps I)"
    by (rule wf_find_unneeded[OF assms(3)])
  have wr: "what_requires I x = Inr {}"
    using wf_what_requires[OF assms(3), of x] req by simp
  have step: "\<exists>pkgs'. orphan_step gm iter orphans x (pkgs, U, R) = Inr (pkgs', insert x U, R)"
    if t: "tracks gm I pkgs" for pkgs U R
    using orphan_step_closed[OF t wf_index_wfm[OF assms(3)] assms(2) assms(5), of orphans U R] req
    by auto
  note r = main_result[OF assms(1,2), of gm I]
  have fin: "\<forall>U R. main gm iter I orphans = Inr (U, R) \<longrightarrow> x \<in> U \<and> R x = None"
  proof (intro allI impI)
    fix U R
    assume m: "main gm iter I orphans = Inr (U, R)"
    with r have "U = spec_unneeded I orphans" "R = spec_required gm I orphans"
      by (auto split: if_splits)
    with req assms(4) show "x \<in> U \<and> R x = None"
      by (simp add: spec_unneeded_def spec_required_def)
  qed
  have tot: "orphans_indexed I orphans \<longrightarrow> (\<exists>U R. main gm iter I orphans = Inr (U, R))"
    using r assms(3) by simp
  from fu ad wr step fin tot show ?thesis by blast
qed

text \<open>
  Package \<open>a\<close> optionally depends on the orphan \<open>x\<close>; nothing else names \<open>x\<close>.
\<close>

theorem optdepends_only_unneeded_witness:
  "finite {''x''} \<and> sound_order sorted_list_of_set \<and>
   wf_index [(''a'', example_pkg {} {''x''}), (''x'', example_pkg {} {})] \<and>
   ''x'' \<in> keys [(''a'', example_pkg {} {''x''}), (''x'', example_pkg {} {})] \<and>
   orphans_indexed [(''a'', example_pkg {} {''x''}), (''x'', example_pkg {} {})] {''x''} \<and>
   what_requires [(''a'', example_pkg {} {''x''}), (''x'', example_pkg {} {})] ''x'' = Inr {} \<and>
   (\<exists>U R. main example_gm sorted_list_of_set
            [(''a'', example_pkg {} {''x''}), (''x'', example_pkg {} {})] {''x''} = Inr (U, R) \<and>
          ''x'' \<in> U \<and> R ''x'' = None)"
proof -
  let ?I = "[(''a'', example_pkg {} {''x''}), (''x'', example_pkg {} {})]"
  have f: "finite {''x''}" by simp
  have w: "wf_index ?I" by (simp add: eval_index)
  have o: "''x'' \<in> {''x''}" by simp
  have k: "''x'' \<in> keys ?I" by (simp add: eval_index)
  have i: "orphans_indexed ?I {''x''}" by (simp add: eval_index)
  have h1: "\<exists>k\<in>keys ?I. ''x'' \<in> field_of ?I k ''optdepends''" by (simp add: eval_index)
  have h2: "\<forall>k\<in>keys ?I. \<forall>f\<in>set deptypes. ''x'' \<notin> field_of ?I k f" by (simp add: eval_index)
  note t = optdepends_only_unneeded[OF f sound_sorted w o k h1 h2, of example_gm]
  have wr: "what_requires ?I ''x'' = Inr {}"
    by (rule conjunct1[OF conjunct2[OF conjunct2[OF t]]])
  have ex: "\<exists>U R. main example_gm sorted_list_of_set ?I {''x''} = Inr (U, R)"
    by (rule mp[OF conjunct2[OF conjunct2[OF conjunct2[OF conjunct2[OF conjunct2[OF t]]]]] i])
  have res: "\<exists>U R. main example_gm sorted_list_of_set ?I {''x''} = Inr (U, R) \<and>
          ''x'' \<in> U \<and> R ''x'' = None"
    by (rule ex2_conjI[OF ex conjunct1[OF conjunct2[OF conjunct2[OF conjunct2[OF conjunct2[OF t]]]]]])
  show ?thesis by (intro conjI; (rule f sound_sorted w k i wr res))
qed

text \<open>
  C3. Let \<open>X\<close> and \<open>Y\<close> be orphans and packages of the index, where \<open>Y\<close> names \<open>X\<close> in
  a hard dependency field, no package names \<open>Y\<close> in any of its four fields, and no package
  other than \<open>Y\<close> names \<open>X\<close> in a hard dependency field. Then \<open>Y\<close> is in the initial
  unneeded set and \<open>X\<close> is not; the requirers of \<open>X\<close> are \<open>{Y}\<close>, a subset of the orphan
  set; every result of the classifier has both \<open>X\<close> and \<open>Y\<close> unneeded; and the classifier
  returns when \<open>X\<close> and \<open>Y\<close> are the only orphans, or when every referenced orphan is a
  package of the index.
\<close>

theorem orphan_chain_unneeded:
  assumes "finite orphans" and "sound_order iter" and "wf_index I"
    and "X \<in> orphans" and "Y \<in> orphans" and "X \<in> keys I" and "Y \<in> keys I"
    and "\<exists>f\<in>set deptypes. X \<in> field_of I Y f"
    and "Y \<notin> all_deps I"
    and "\<forall>k\<in>keys I. k \<noteq> Y \<longrightarrow> (\<forall>f\<in>set deptypes. X \<notin> field_of I k f)"
  shows "find_unneeded_orphans I orphans = Inr (orphans - all_deps I) \<and>
         Y \<in> orphans - all_deps I \<and> X \<notin> orphans - all_deps I \<and>
         what_requires I X = Inr {Y} \<and> {Y} \<subseteq> orphans \<and>
         (\<forall>U R. main gm iter I orphans = Inr (U, R) \<longrightarrow> X \<in> U \<and> Y \<in> U) \<and>
         (orphans = {X, Y} \<or> orphans_indexed I orphans \<longrightarrow>
            (\<exists>U R. main gm iter I orphans = Inr (U, R)))"
proof -
  have req: "requirers I X = {Y}"
    using assms(7,8,10) by (auto simp: requirers_def)
  have ad: "X \<in> all_deps I"
    using assms(7,8) deptypes_pkgfields by (auto simp: all_deps_def)
  have fu: "find_unneeded_orphans I orphans = Inr (orphans - all_deps I)"
    by (rule wf_find_unneeded[OF assms(3)])
  have wr: "what_requires I X = Inr {Y}"
    using wf_what_requires[OF assms(3), of X] req by simp
  note r = main_result[OF assms(1,2), of gm I]
  have fin: "\<forall>U R. main gm iter I orphans = Inr (U, R) \<longrightarrow> X \<in> U \<and> Y \<in> U"
  proof (intro allI impI)
    fix U R
    assume m: "main gm iter I orphans = Inr (U, R)"
    with r have "U = spec_unneeded I orphans" by (auto split: if_splits)
    with req assms(4,5,9) show "X \<in> U \<and> Y \<in> U"
      by (simp add: spec_unneeded_def)
  qed
  have "orphans_indexed I orphans" if "orphans = {X, Y}"
    using that assms(6,7) by (auto simp: orphans_indexed_def)
  then have tot: "orphans = {X, Y} \<or> orphans_indexed I orphans \<longrightarrow>
            (\<exists>U R. main gm iter I orphans = Inr (U, R))"
    using r assms(3) by auto
  from fu ad wr fin tot assms(4,5,9) show ?thesis by blast
qed

text \<open>The two packages of the scenario: \<open>y\<close> depends on \<open>x\<close>, and both are orphans.\<close>

theorem orphan_chain_unneeded_witness:
  "finite {''x'', ''y''} \<and> sound_order sorted_list_of_set \<and>
   wf_index [(''x'', example_pkg {} {}), (''y'', example_pkg {''x''} {})] \<and>
   ''y'' \<notin> all_deps [(''x'', example_pkg {} {}), (''y'', example_pkg {''x''} {})] \<and>
   what_requires [(''x'', example_pkg {} {}), (''y'', example_pkg {''x''} {})] ''x'' = Inr {''y''} \<and>
   (\<exists>U R. main example_gm sorted_list_of_set
            [(''x'', example_pkg {} {}), (''y'', example_pkg {''x''} {})] {''x'', ''y''} = Inr (U, R) \<and>
          ''x'' \<in> U \<and> ''y'' \<in> U)"
proof -
  let ?I = "[(''x'', example_pkg {} {}), (''y'', example_pkg {''x''} {})]"
  have f: "finite {''x'', ''y''}" by simp
  have w: "wf_index ?I" by (simp add: eval_index)
  have ox: "''x'' \<in> {''x'', ''y''}" and oy: "''y'' \<in> {''x'', ''y''}" by simp_all
  have kx: "''x'' \<in> keys ?I" and ky: "''y'' \<in> keys ?I" by (simp_all add: eval_index)
  have h1: "\<exists>f\<in>set deptypes. ''x'' \<in> field_of ?I ''y'' f" by (simp add: eval_index)
  have h2: "''y'' \<notin> all_deps ?I" by (simp add: eval_index)
  have h3: "\<forall>k\<in>keys ?I. k \<noteq> ''y'' \<longrightarrow> (\<forall>f\<in>set deptypes. ''x'' \<notin> field_of ?I k f)"
    by (simp add: eval_index)
  note t = orphan_chain_unneeded[OF f sound_sorted w ox oy kx ky h1 h2 h3, of example_gm]
  have wr: "what_requires ?I ''x'' = Inr {''y''}"
    by (rule conjunct1[OF conjunct2[OF conjunct2[OF conjunct2[OF t]]]])
  have ex: "\<exists>U R. main example_gm sorted_list_of_set ?I {''x'', ''y''} = Inr (U, R)"
    by (rule mp[OF conjunct2[OF conjunct2[OF conjunct2[OF conjunct2[OF conjunct2[OF conjunct2[OF t]]]]]]
          disjI1[OF refl]])
  have res: "\<exists>U R. main example_gm sorted_list_of_set ?I {''x'', ''y''} = Inr (U, R) \<and>
          ''x'' \<in> U \<and> ''y'' \<in> U"
    by (rule ex2_conjI[OF ex
          conjunct1[OF conjunct2[OF conjunct2[OF conjunct2[OF conjunct2[OF conjunct2[OF t]]]]]]])
  show ?thesis by (intro conjI; (rule f sound_sorted w h2 wr res))
qed

text \<open>
  C4 (amended). Let the orphan \<open>x\<close> of \<open>O\<close> be absent from the index. When no package
  names \<open>x\<close> in any of its four dependency fields, \<open>x\<close> is in the initial unneeded set and
  is never looked up: in every result of the classifier \<open>x\<close> is unneeded and has no entry
  in the required mapping, and the classifier returns when every package has the four
  fields and every referenced orphan is a package of the index. When some package names
  \<open>x\<close> in a dependency field, the classifier raises \<^verbatim>\<open>KeyError\<close>.
\<close>

theorem absent_orphan:
  assumes "finite orphans" and "sound_order iter" and "x \<in> orphans" and "x \<notin> keys I"
  shows "(x \<in> all_deps I \<longrightarrow> main gm iter I orphans = Inl KeyError) \<and>
         (x \<notin> all_deps I \<longrightarrow>
            (wf_index I \<longrightarrow> (\<exists>U0. find_unneeded_orphans I orphans = Inr U0 \<and> x \<in> U0)) \<and>
            (\<forall>U R. main gm iter I orphans = Inr (U, R) \<longrightarrow> x \<in> U \<and> R x = None) \<and>
            (wf_index I \<and> orphans_indexed I orphans \<longrightarrow>
               (\<exists>U R. main gm iter I orphans = Inr (U, R))))"
proof -
  note r = main_result[OF assms(1,2), of gm I]
  have a: "main gm iter I orphans = Inl KeyError" if "x \<in> all_deps I"
  proof -
    from that assms(3,4) have "\<not> orphans_indexed I orphans"
      by (auto simp: orphans_indexed_def)
    with r show ?thesis by simp
  qed
  have b: "\<exists>U0. find_unneeded_orphans I orphans = Inr U0 \<and> x \<in> U0"
    if "x \<notin> all_deps I" "wf_index I"
    using wf_find_unneeded[OF that(2), of orphans] that(1) assms(3) by simp
  have c: "x \<in> U \<and> R x = None"
    if "x \<notin> all_deps I" "main gm iter I orphans = Inr (U, R)" for U R
  proof -
    from that(2) r have "U = spec_unneeded I orphans" "R = spec_required gm I orphans"
      by (auto split: if_splits)
    with that(1) assms(3) show ?thesis
      by (simp add: spec_unneeded_def spec_required_def)
  qed
  have d: "wf_index I \<and> orphans_indexed I orphans \<longrightarrow>
               (\<exists>U R. main gm iter I orphans = Inr (U, R))"
    using r by simp
  from a b c d show ?thesis by blast
qed

text \<open>
  The orphan \<open>ghost\<close> is not in the index. With an index that does not name it, it is
  unneeded; with an index whose package \<open>a\<close> depends on it, the classifier raises.
\<close>

theorem absent_orphan_witness:
  "finite {''ghost''} \<and> sound_order sorted_list_of_set \<and>
   ''ghost'' \<notin> keys [(''a'', example_pkg {} {})] \<and>
   ''ghost'' \<notin> all_deps [(''a'', example_pkg {} {})] \<and>
   (\<exists>U R. main example_gm sorted_list_of_set [(''a'', example_pkg {} {})] {''ghost''} = Inr (U, R) \<and>
          ''ghost'' \<in> U \<and> R ''ghost'' = None) \<and>
   ''ghost'' \<notin> keys [(''a'', example_pkg {''ghost''} {})] \<and>
   ''ghost'' \<in> all_deps [(''a'', example_pkg {''ghost''} {})] \<and>
   main example_gm sorted_list_of_set [(''a'', example_pkg {''ghost''} {})] {''ghost''} = Inl KeyError"
proof -
  let ?I = "[(''a'', example_pkg {} {})]"
  let ?J = "[(''a'', example_pkg {''ghost''} {})]"
  have f: "finite {''ghost''}" by simp
  have o: "''ghost'' \<in> {''ghost''}" by simp
  have k: "''ghost'' \<notin> keys ?I" by (simp add: eval_index)
  have n: "''ghost'' \<notin> all_deps ?I" by (simp add: eval_index)
  have w: "wf_index ?I" by (simp add: eval_index)
  have i: "orphans_indexed ?I {''ghost''}" by (simp add: eval_index)
  note t = mp[OF conjunct2[OF absent_orphan[OF f sound_sorted o k, of example_gm]] n]
  have ex: "\<exists>U R. main example_gm sorted_list_of_set ?I {''ghost''} = Inr (U, R)"
    by (rule mp[OF conjunct2[OF conjunct2[OF t]] conjI[OF w i]])
  have res: "\<exists>U R. main example_gm sorted_list_of_set ?I {''ghost''} = Inr (U, R) \<and>
          ''ghost'' \<in> U \<and> R ''ghost'' = None"
    by (rule ex2_conjI[OF ex conjunct1[OF conjunct2[OF t]]])
  have k': "''ghost'' \<notin> keys ?J" by (simp add: eval_index)
  have n': "''ghost'' \<in> all_deps ?J" by (simp add: eval_index)
  have e: "main example_gm sorted_list_of_set ?J {''ghost''} = Inl KeyError"
    by (rule mp[OF conjunct1[OF absent_orphan[OF f sound_sorted o k', of example_gm]] n'])
  show ?thesis by (intro conjI; (rule f sound_sorted k n res k' n' e))
qed

text \<open>
  Without that distinction the property fails: package \<open>a\<close> optionally depends on the orphan \<open>ghost\<close>, which
  is not in the index; the orphan survives the initial filter and \<^verbatim>\<open>packages[orphan]\<close>
  raises \<^verbatim>\<open>KeyError\<close>.
\<close>

theorem absent_orphan_counterexample:
  "main example_gm sorted_list_of_set [(''a'', example_pkg {} {''ghost''})] {''ghost''} =
     Inl KeyError"
  by (simp add: eval_main)

subsection \<open>The repository reader\<close>

text \<open>
  C5. Removing version requirements, by the three passes for \<^verbatim>\<open><\<close>, \<^verbatim>\<open>>\<close> and \<^verbatim>\<open>=\<close> in
  that order, replaces every entry of each of the four dependency fields by the part before
  its first constraint character: an entry with such a character is that part, followed by
  the character and the rest; an entry with none of the three is unchanged. So
  \<^verbatim>\<open>foo>=1.2\<close>, \<^verbatim>\<open>bar<3\<close> and \<^verbatim>\<open>baz=1.0\<close> become \<^verbatim>\<open>foo\<close>, \<^verbatim>\<open>bar\<close> and \<^verbatim>\<open>baz\<close>.
\<close>

theorem remove_versions_bare_name:
  "deps (remove_versions p) key =
     (if key \<in> set pkgfields then map_option ((`) before_constraint) (deps p key)
      else deps p key) \<and>
   fold version_pass ''<>='' tmp = before_constraint ` tmp \<and>
   (set e \<inter> {CHR ''<'', CHR ''>'', CHR ''=''} \<noteq> {} \<longrightarrow>
      (\<exists>c r. c \<in> {CHR ''<'', CHR ''>'', CHR ''=''} \<and> e = before_constraint e @ c # r \<and>
             set (before_constraint e) \<inter> {CHR ''<'', CHR ''>'', CHR ''=''} = {})) \<and>
   (set e \<inter> {CHR ''<'', CHR ''>'', CHR ''=''} = {} \<longrightarrow> before_constraint e = e) \<and>
   before_constraint ''foo>=1.2'' = ''foo'' \<and> before_constraint ''bar<3'' = ''bar'' \<and>
   before_constraint ''baz=1.0'' = ''baz''"
proof -
  let ?P = "\<lambda>c. c \<notin> {CHR ''<'', CHR ''>'', CHR ''=''}"
  have a: "\<exists>c r. c \<in> {CHR ''<'', CHR ''>'', CHR ''=''} \<and> e = before_constraint e @ c # r \<and>
             set (before_constraint e) \<inter> {CHR ''<'', CHR ''>'', CHR ''=''} = {}"
    if "set e \<inter> {CHR ''<'', CHR ''>'', CHR ''=''} \<noteq> {}"
  proof -
    from that have "\<exists>x\<in>set e. \<not> ?P x" by blast
    from before_first[OF this] obtain c r where
      "\<not> ?P c" "e = takeWhile ?P e @ c # r" "\<forall>y\<in>set (takeWhile ?P e). ?P y"
      by blast
    then show ?thesis unfolding before_constraint_def by blast
  qed
  have b: "before_constraint e = e" if "set e \<inter> {CHR ''<'', CHR ''>'', CHR ''=''} = {}"
    unfolding before_constraint_def by (rule takeWhile_all) (use that in blast)
  have c: "before_constraint ''foo>=1.2'' = ''foo''" "before_constraint ''bar<3'' = ''bar''"
    "before_constraint ''baz=1.0'' = ''baz''"
    by (simp_all add: before_constraint_def)
  from a b c deps_remove_versions[of p key] version_passes[of tmp] show ?thesis by blast
qed

theorem remove_versions_bare_name_witness:
  "deps (remove_versions (example_pkg {''foo>=1.2'', ''bar<3'', ''qux''} {''baz=1.0''})) ''depends'' =
     Some {''foo'', ''bar'', ''qux''} \<and>
   deps (remove_versions (example_pkg {''foo>=1.2'', ''bar<3'', ''qux''} {''baz=1.0''})) ''optdepends'' =
     Some {''baz''}"
proof -
  let ?p = "example_pkg {''foo>=1.2'', ''bar<3'', ''qux''} {''baz=1.0''}"
  have k: "''depends'' \<in> set pkgfields" "''optdepends'' \<in> set pkgfields"
    by (simp_all add: pkgfields_def)
  have a: "deps (remove_versions ?p) ''depends'' =
             map_option ((`) before_constraint) (deps ?p ''depends'')"
    by (rule trans[OF conjunct1[OF remove_versions_bare_name[of ?p "''depends''"]] if_P[OF k(1)]])
  have b: "deps (remove_versions ?p) ''optdepends'' =
             map_option ((`) before_constraint) (deps ?p ''optdepends'')"
    by (rule trans[OF conjunct1[OF remove_versions_bare_name[of ?p "''optdepends''"]] if_P[OF k(2)]])
  show ?thesis unfolding a b by (simp add: example_pkg_def before_constraint_def)
qed

text \<open>
  C6. Removing descriptions replaces every entry of \<^verbatim>\<open>optdepends\<close> by the part before its
  first colon and leaves the other fields alone: an entry with a colon is that part,
  followed by the colon and the rest; an entry with no colon is unchanged;
  \<^verbatim>\<open>foo: some description\<close> becomes \<^verbatim>\<open>foo\<close>. The step runs for every package that the
  reader returns: its \<^verbatim>\<open>optdepends\<close> are the entries of the two records, each cut at its
  first colon and then at its first constraint character.
\<close>

theorem remove_descriptions_before_colon:
  "deps (remove_descriptions p) key =
     (if key = ''optdepends'' then map_option ((`) before_colon) (deps p key) else deps p key) \<and>
   (CHR '':'' \<in> set e \<longrightarrow>
      (\<exists>r. e = before_colon e @ CHR '':'' # r \<and> CHR '':'' \<notin> set (before_colon e))) \<and>
   (CHR '':'' \<notin> set e \<longrightarrow> before_colon e = e) \<and>
   before_colon ''foo: some description'' = ''foo'' \<and>
   (read_desc reponame repodb pkgid = Inr (n, p0) \<and> merge_depends repodb pkgid p0 = Inr p1 \<longrightarrow>
      (\<exists>q. parse_pkg reponame repodb pkgid = Inr (n, q) \<and>
           deps q ''optdepends'' =
             Some (case deps p1 ''optdepends'' of
                     None \<Rightarrow> {}
                   | Some s \<Rightarrow> before_constraint ` before_colon ` s)))"
proof -
  let ?P = "\<lambda>c. c \<noteq> CHR '':''"
  have a: "\<exists>r. e = before_colon e @ CHR '':'' # r \<and> CHR '':'' \<notin> set (before_colon e)"
    if "CHR '':'' \<in> set e"
  proof -
    from that have "\<exists>x\<in>set e. \<not> ?P x" by blast
    from before_first[OF this] obtain c r where
      "\<not> ?P c" "e = takeWhile ?P e @ c # r" "\<forall>y\<in>set (takeWhile ?P e). ?P y"
      by blast
    then show ?thesis unfolding before_colon_def by blast
  qed
  have b: "before_colon e = e" if "CHR '':'' \<notin> set e"
    unfolding before_colon_def by (rule takeWhile_all) (use that in blast)
  have c: "before_colon ''foo: some description'' = ''foo''"
    by (simp add: before_colon_def)
  have d: "\<exists>q. parse_pkg reponame repodb pkgid = Inr (n, q) \<and>
           deps q ''optdepends'' =
             Some (case deps p1 ''optdepends'' of
                     None \<Rightarrow> {}
                   | Some s \<Rightarrow> before_constraint ` before_colon ` s)"
    if "read_desc reponame repodb pkgid = Inr (n, p0)" "merge_depends repodb pkgid p0 = Inr p1"
  proof -
    have "parse_pkg reponame repodb pkgid =
            Inr (n, fill_missing (remove_versions (remove_descriptions p1)))"
      using that by (simp add: parse_pkg_def)
    moreover have "deps (fill_missing (remove_versions (remove_descriptions p1))) ''optdepends'' =
             Some (case deps p1 ''optdepends'' of
                     None \<Rightarrow> {}
                   | Some s \<Rightarrow> before_constraint ` before_colon ` s)"
      by (cases "deps p1 ''optdepends''")
         (simp_all add: deps_fill_missing deps_remove_versions deps_remove_descriptions
            pkgfields_def)
    ultimately show ?thesis by blast
  qed
  from a b c d deps_remove_descriptions[of p key] show ?thesis by blast
qed

theorem remove_descriptions_before_colon_witness:
  "deps (remove_descriptions (example_pkg {''a: b''} {''foo: some description'', ''bar''}))
     ''optdepends'' = Some {''foo'', ''bar''} \<and>
   deps (remove_descriptions (example_pkg {''a: b''} {''foo: some description'', ''bar''}))
     ''depends'' = Some {''a: b''}"
proof -
  let ?p = "example_pkg {''a: b''} {''foo: some description'', ''bar''}"
  have a: "deps (remove_descriptions ?p) ''optdepends'' =
             map_option ((`) before_colon) (deps ?p ''optdepends'')"
    by (rule trans[OF conjunct1[OF remove_descriptions_before_colon[of ?p "''optdepends''"]]
          if_P[OF refl]])
  have ne: "''depends'' \<noteq> ''optdepends''" by simp
  have b: "deps (remove_descriptions ?p) ''depends'' = deps ?p ''depends''"
    by (rule trans[OF conjunct1[OF remove_descriptions_before_colon[of ?p "''depends''"]]
          if_not_P[OF ne]])
  show ?thesis unfolding a b by (simp add: example_pkg_def before_colon_def)
qed

subsection \<open>The block-text parser\<close>

text \<open>
  C7. On every sequence of input lines the block-text parser returns the mapping of the
  reference (each marker line opens a block keyed by the lowercased name, each following
  non-blank line up to the next marker is appended in order, blank lines are skipped
  without ending the block, lines before the first marker are ignored), except that the
  block of the empty name, when there is one, is left empty. So the parser agrees with the
  reference exactly when the reference has no block of the empty name or an empty one, in
  particular when every marker has a name, and the record
  \<^verbatim>\<open>%NAME%\nval1\nval2\n\n%OTHER%\nval3\<close> parses to
  \<^verbatim>\<open>{"name": ["val1","val2"], "other": ["val3"]}\<close>. On the lines \<^verbatim>\<open>%A%\<close>, \<^verbatim>\<open>%%\<close>, \<^verbatim>\<open>v\<close> the
  marker \<^verbatim>\<open>%%\<close> opens the block of the empty name and the line \<^verbatim>\<open>v\<close> after it is dropped,
  where the reference appends it: the test \<^verbatim>\<open>elif blockname:\<close> takes the empty string for
  no block.
\<close>

theorem parse_desc_blocks:
  "parse_desc ls =
     Inr ((parse_desc_spec ls)([] := map_option (\<lambda>vs. []) (parse_desc_spec ls []))) \<and>
   (parse_desc ls = Inr (parse_desc_spec ls) \<longleftrightarrow>
      parse_desc_spec ls [] = None \<or> parse_desc_spec ls [] = Some []) \<and>
   (named_markers ls \<longrightarrow> parse_desc ls = Inr (parse_desc_spec ls)) \<and>
   parse_desc (text_lines ''%NAME%\<newline>val1\<newline>val2\<newline>\<newline>%OTHER%\<newline>val3'') =
     Inr [''name'' \<mapsto> [''val1'', ''val2''], ''other'' \<mapsto> [''val3'']] \<and>
   parse_desc [''%A%'', ''%%'', ''v''] = Inr [''a'' \<mapsto> [], [] \<mapsto> []] \<and>
   parse_desc_spec [''%A%'', ''%%'', ''v''] = [''a'' \<mapsto> [], [] \<mapsto> [''v'']]"
proof -
  have a: "parse_desc ls =
     Inr ((parse_desc_spec ls)([] := map_option (\<lambda>vs. []) (parse_desc_spec ls [])))"
    by (simp only: parse_desc_kept_eq parse_desc_kept_spec)
  have b: "parse_desc ls = Inr (parse_desc_spec ls) \<longleftrightarrow>
      parse_desc_spec ls [] = None \<or> parse_desc_spec ls [] = Some []"
    by (rule parse_desc_agrees)
  have c: "named_markers ls \<longrightarrow> parse_desc ls = Inr (parse_desc_spec ls)"
    using parse_desc_refines[of ls] by (simp add: named_markers_def)
  have d: "parse_desc (text_lines ''%NAME%\<newline>val1\<newline>val2\<newline>\<newline>%OTHER%\<newline>val3'') =
     Inr [''name'' \<mapsto> [''val1'', ''val2''], ''other'' \<mapsto> [''val3'']]"
    by (simp add: eval_desc)
  have e: "parse_desc [''%A%'', ''%%'', ''v''] = Inr [''a'' \<mapsto> [], [] \<mapsto> []]"
    by (simp add: eval_desc)
  have f: "parse_desc_spec [''%A%'', ''%%'', ''v''] = [''a'' \<mapsto> [], [] \<mapsto> [''v'']]"
    by (simp add: eval_desc parse_desc_spec_def value_lines_def)
  show ?thesis by (intro conjI; (rule a b c d e f))
qed

text \<open>
  A record whose markers all have a name, and a record that ends with the marker \<^verbatim>\<open>%%\<close>: on
  both the parser returns the mapping of the reference.
\<close>

theorem parse_desc_blocks_witness:
  "named_markers [''%NAME%'', '' val1 '', '''', ''val2'', ''%OTHER%''] \<and>
   parse_desc [''%NAME%'', '' val1 '', '''', ''val2'', ''%OTHER%''] =
     Inr (parse_desc_spec [''%NAME%'', '' val1 '', '''', ''val2'', ''%OTHER%'']) \<and>
   parse_desc_spec [''%NAME%'', '' val1 '', '''', ''val2'', ''%OTHER%''] =
     [''name'' \<mapsto> [''val1'', ''val2''], ''other'' \<mapsto> []] \<and>
   parse_desc_spec [''%A%'', ''v'', ''%%''] [] = Some [] \<and>
   parse_desc [''%A%'', ''v'', ''%%''] = Inr (parse_desc_spec [''%A%'', ''v'', ''%%''])"
proof -
  have h: "named_markers [''%NAME%'', '' val1 '', '''', ''val2'', ''%OTHER%'']"
    by (simp add: named_markers_def eval_desc)
  have v: "parse_desc_spec [''%NAME%'', '' val1 '', '''', ''val2'', ''%OTHER%''] =
     [''name'' \<mapsto> [''val1'', ''val2''], ''other'' \<mapsto> []]"
    by (simp add: parse_desc_spec_def value_lines_def eval_desc)
  have p: "parse_desc [''%NAME%'', '' val1 '', '''', ''val2'', ''%OTHER%''] =
     Inr (parse_desc_spec [''%NAME%'', '' val1 '', '''', ''val2'', ''%OTHER%''])"
    by (rule mp[OF conjunct1[OF conjunct2[OF conjunct2[OF parse_desc_blocks]]] h])
  have s: "parse_desc_spec [''%A%'', ''v'', ''%%''] [] = Some []"
    by (simp add: parse_desc_spec_def value_lines_def eval_desc)
  have q: "parse_desc [''%A%'', ''v'', ''%%''] = Inr (parse_desc_spec [''%A%'', ''v'', ''%%''])"
    by (rule iffD2[OF conjunct1[OF conjunct2[OF parse_desc_blocks]] disjI2[OF s]])
  show ?thesis by (intro conjI; (rule h v p s q))
qed

text \<open>
  C8. The last step of the reader sets each of the four dependency fields that is absent to
  the empty set and leaves a present field as it is. So every package of the mapping that
  the repository reader returns comes from a directory of the archive and has each of the
  four fields present, as a set: the empty set when the field is absent after parsing and
  merging, and otherwise the entries parsed and merged, normalised. Every package of the
  index merged from several repositories has the four fields too; and on such an index the
  union of all dependencies and the search for hard requirers read the fields of every
  package without raising.
\<close>

theorem parse_repo_fields_present:
  "(parse_repo dbpath repodb = Inr pkgs \<longrightarrow>
      fields_present pkgs \<and> wf_index pkgs \<and>
      find_unneeded_orphans pkgs orphans = Inr (orphans - all_deps pkgs) \<and>
      what_requires pkgs x = Inr (requirers pkgs x)) \<and>
   (get_packages dbs = Inr idx \<longrightarrow>
      fields_present idx \<and> wf_index idx \<and>
      find_unneeded_orphans idx orphans = Inr (orphans - all_deps idx) \<and>
      what_requires idx x = Inr (requirers idx x)) \<and>
   deps (fill_missing p) key =
     (if key \<in> set pkgfields then Some (case deps p key of None \<Rightarrow> {} | Some s \<Rightarrow> s)
      else deps p key) \<and>
   (parse_repo dbpath repodb = Inr pkgs \<longrightarrow>
      (\<forall>(k, q)\<in>set pkgs. \<exists>d\<in>set repodb. \<exists>p0 p1. tar_isdir d \<and>
         read_desc (fst (split CHR ''.'' (basename dbpath))) repodb (tar_name d) = Inr (k, p0) \<and>
         merge_depends repodb (tar_name d) p0 = Inr p1 \<and>
         (\<forall>f\<in>set pkgfields.
            (deps p1 f = None \<longrightarrow> deps q f = Some {}) \<and>
            (\<forall>s. deps p1 f = Some s \<longrightarrow>
               deps q f = Some (before_constraint `
                                 (if f = ''optdepends'' then before_colon ` s else s))))))"
proof -
  have a: "fields_present pkgs" if "parse_repo dbpath repodb = Inr pkgs"
    using that by (rule parse_repo_wf)
  have b: "fields_present idx" if "get_packages dbs = Inr idx"
    using that by (rule get_packages_wf)
  have c: "wf_index i \<and> find_unneeded_orphans i orphans = Inr (orphans - all_deps i) \<and>
           what_requires i x = Inr (requirers i x)" if "fields_present i" for i
    using fields_present_wf[OF that] by (simp add: wf_find_unneeded wf_what_requires)
  have d: "parse_repo dbpath repodb = Inr pkgs \<longrightarrow>
      (\<forall>(k, q)\<in>set pkgs. \<exists>d\<in>set repodb. \<exists>p0 p1. tar_isdir d \<and>
         read_desc (fst (split CHR ''.'' (basename dbpath))) repodb (tar_name d) = Inr (k, p0) \<and>
         merge_depends repodb (tar_name d) p0 = Inr p1 \<and>
         (\<forall>f\<in>set pkgfields.
            (deps p1 f = None \<longrightarrow> deps q f = Some {}) \<and>
            (\<forall>s. deps p1 f = Some s \<longrightarrow>
               deps q f = Some (before_constraint `
                                 (if f = ''optdepends'' then before_colon ` s else s)))))"
  proof (intro impI ballI, clarify)
    fix k q
    assume "parse_repo dbpath repodb = Inr pkgs" "(k, q) \<in> set pkgs"
    then show "\<exists>d\<in>set repodb. \<exists>p0 p1. tar_isdir d \<and>
         read_desc (fst (split CHR ''.'' (basename dbpath))) repodb (tar_name d) = Inr (k, p0) \<and>
         merge_depends repodb (tar_name d) p0 = Inr p1 \<and>
         (\<forall>f\<in>set pkgfields.
            (deps p1 f = None \<longrightarrow> deps q f = Some {}) \<and>
            (\<forall>s. deps p1 f = Some s \<longrightarrow>
               deps q f = Some (before_constraint `
                                 (if f = ''optdepends'' then before_colon ` s else s))))"
      by (rule parse_repo_fields)
  qed
  have ab: "parse_repo dbpath repodb = Inr pkgs \<longrightarrow>
      fields_present pkgs \<and> wf_index pkgs \<and>
      find_unneeded_orphans pkgs orphans = Inr (orphans - all_deps pkgs) \<and>
      what_requires pkgs x = Inr (requirers pkgs x)"
    using a c by blast
  have bb: "get_packages dbs = Inr idx \<longrightarrow>
      fields_present idx \<and> wf_index idx \<and>
      find_unneeded_orphans idx orphans = Inr (orphans - all_deps idx) \<and>
      what_requires idx x = Inr (requirers idx x)"
    using b c by blast
  show ?thesis by (intro conjI; (rule ab bb d deps_fill_missing))
qed

text \<open>
  The database has the package directory \<^verbatim>\<open>foo-1.0-1\<close> and its record \<^verbatim>\<open>desc\<close>, which has
  \<^verbatim>\<open>%DEPENDS%\<close> and \<^verbatim>\<open>%OPTDEPENDS%\<close> only; the other two fields are the empty set. On a
  package with no field at all the last step gives \<^verbatim>\<open>makedepends\<close> the empty set.
\<close>

theorem parse_repo_fields_present_witness:
  "parse_repo ''/tmp/x/extra.db'' example_db =
     Inr [(''foo'', \<lparr>repo = ''extra'', arch = ''x86_64'', pkgbase = None,
        deps = [''depends'' \<mapsto> {''bar''}, ''optdepends'' \<mapsto> {''baz''}, ''makedepends'' \<mapsto> {},
                ''checkdepends'' \<mapsto> {}],
        required_by = None, maintainers = None\<rparr>)] \<and>
   fields_present
     [(''foo'', \<lparr>repo = ''extra'', arch = ''x86_64'', pkgbase = None,
        deps = [''depends'' \<mapsto> {''bar''}, ''optdepends'' \<mapsto> {''baz''}, ''makedepends'' \<mapsto> {},
                ''checkdepends'' \<mapsto> {}],
        required_by = None, maintainers = None\<rparr>)] \<and>
   what_requires
     [(''foo'', \<lparr>repo = ''extra'', arch = ''x86_64'', pkgbase = None,
        deps = [''depends'' \<mapsto> {''bar''}, ''optdepends'' \<mapsto> {''baz''}, ''makedepends'' \<mapsto> {},
                ''checkdepends'' \<mapsto> {}],
        required_by = None, maintainers = None\<rparr>)] ''bar'' =
     Inr (requirers
     [(''foo'', \<lparr>repo = ''extra'', arch = ''x86_64'', pkgbase = None,
        deps = [''depends'' \<mapsto> {''bar''}, ''optdepends'' \<mapsto> {''baz''}, ''makedepends'' \<mapsto> {},
                ''checkdepends'' \<mapsto> {}],
        required_by = None, maintainers = None\<rparr>)] ''bar'') \<and>
   deps (fill_missing \<lparr>repo = ''extra'', arch = ''x86_64'', pkgbase = None, deps = Map.empty,
                      required_by = None, maintainers = None\<rparr>) ''makedepends'' = Some {}"
proof -
  note t = mp[OF conjunct1[OF parse_repo_fields_present] example_db_parsed]
  let ?p = "\<lparr>repo = ''extra'', arch = ''x86_64'', pkgbase = None, deps = Map.empty,
            required_by = None, maintainers = None\<rparr>"
  have k: "''makedepends'' \<in> set pkgfields" by (simp add: pkgfields_def)
  have "deps (fill_missing ?p) ''makedepends'' =
          Some (case deps ?p ''makedepends'' of None \<Rightarrow> {} | Some s \<Rightarrow> s)"
    by (rule trans[OF conjunct1[OF conjunct2[OF conjunct2[OF
          parse_repo_fields_present[of _ _ _ _ _ _ _ ?p "''makedepends''"]]]] if_P[OF k]])
  then have m: "deps (fill_missing ?p) ''makedepends'' = Some {}" by simp
  show ?thesis
    by (intro conjI; (rule example_db_parsed conjunct1[OF t]
          conjunct2[OF conjunct2[OF conjunct2[OF t]]] m))
qed

text \<open>
  C9. The repository reader fails whenever a directory of the archive has no \<^verbatim>\<open>desc\<close>
  record: the \<^verbatim>\<open>KeyError\<close> of the lookup is not caught and no mapping is returned. A
  missing \<^verbatim>\<open>depends\<close> record is not a failure: the fields parsed from \<^verbatim>\<open>desc\<close> go unchanged
  to the normalisation, and the reader succeeds on an archive whose directories all have a
  well-formed \<^verbatim>\<open>desc\<close> record and no \<^verbatim>\<open>depends\<close> record.
\<close>

theorem parse_repo_missing_records:
  "(m \<in> set repodb \<and> tar_isdir m \<and>
    getmember repodb (path_join (tar_name m) ''desc'') = Inl KeyError \<longrightarrow>
      parse_member reponame repodb m pkgs = Inl KeyError \<and>
      (\<exists>e. parse_repo dbpath repodb = Inl e)) \<and>
   (getmember repodb (path_join pkgid ''depends'') = Inl KeyError \<longrightarrow>
      merge_depends repodb pkgid p = Inr p \<and>
      parse_pkg reponame repodb pkgid =
        bindE (read_desc reponame repodb pkgid) (\<lambda>(n, p).
          Inr (n, fill_missing (remove_versions (remove_descriptions p))))) \<and>
   ((\<forall>d\<in>set repodb. tar_isdir d \<longrightarrow>
       (\<exists>n p. read_desc (fst (split CHR ''.'' (basename dbpath))) repodb (tar_name d) = Inr (n, p)) \<and>
       getmember repodb (path_join (tar_name d) ''depends'') = Inl KeyError) \<longrightarrow>
      (\<exists>idx. parse_repo dbpath repodb = Inr idx))"
proof -
  have a: "parse_member reponame repodb m pkgs = Inl KeyError \<and>
      (\<exists>e. parse_repo dbpath repodb = Inl e)"
    if "m \<in> set repodb" "tar_isdir m"
      "getmember repodb (path_join (tar_name m) ''desc'') = Inl KeyError"
    using parse_member_missing_desc[OF that(2,3)] parse_repo_missing_desc[OF that] by blast
  have b: "merge_depends repodb pkgid p = Inr p \<and>
      parse_pkg reponame repodb pkgid =
        bindE (read_desc reponame repodb pkgid) (\<lambda>(n, p).
          Inr (n, fill_missing (remove_versions (remove_descriptions p))))"
    if "getmember repodb (path_join pkgid ''depends'') = Inl KeyError"
    using merge_depends_missing[OF that] parse_pkg_missing_depends[OF that] by blast
  have c: "\<exists>idx. parse_repo dbpath repodb = Inr idx"
    if h: "\<forall>d\<in>set repodb. tar_isdir d \<longrightarrow>
       (\<exists>n p. read_desc (fst (split CHR ''.'' (basename dbpath))) repodb (tar_name d) = Inr (n, p)) \<and>
       getmember repodb (path_join (tar_name d) ''depends'') = Inl KeyError"
  proof (rule parse_repo_succeeds)
    fix d
    assume "d \<in> set repodb" "tar_isdir d"
    with h show "(\<exists>n p. read_desc (fst (split CHR ''.'' (basename dbpath))) repodb (tar_name d) =
                   Inr (n, p)) \<and>
          (case getmember repodb (path_join (tar_name d) ''depends'') of
             Inl e \<Rightarrow> True | Inr x \<Rightarrow> \<not> tar_isdir x)"
      by auto
  qed
  from a b c show ?thesis by blast
qed

text \<open>
  A directory alone, with no record, makes the reader fail; the example database, whose
  directory has a \<^verbatim>\<open>desc\<close> and no \<^verbatim>\<open>depends\<close> record, is read.
\<close>

theorem parse_repo_missing_records_witness:
  "getmember [\<lparr>tar_name = ''foo-1.0-1'', tar_isdir = True, tar_data = []\<rparr>]
     (path_join ''foo-1.0-1'' ''desc'') = Inl KeyError \<and>
   (\<exists>e. parse_repo ''/tmp/x/extra.db''
          [\<lparr>tar_name = ''foo-1.0-1'', tar_isdir = True, tar_data = []\<rparr>] = Inl e) \<and>
   getmember example_db (path_join ''foo-1.0-1'' ''depends'') = Inl KeyError \<and>
   merge_depends example_db ''foo-1.0-1'' (example_pkg {''bar''} {}) = Inr (example_pkg {''bar''} {}) \<and>
   (\<exists>idx. parse_repo ''/tmp/x/extra.db'' example_db = Inr idx)"
proof -
  let ?m = "\<lparr>tar_name = ''foo-1.0-1'', tar_isdir = True, tar_data = []\<rparr>"
  have g: "getmember [?m] (path_join (tar_name ?m) ''desc'') = Inl KeyError"
    by (simp add: getmember_def path_join_def endswith_def)
  have g': "getmember [?m] (path_join ''foo-1.0-1'' ''desc'') = Inl KeyError"
    using g by simp
  have m: "?m \<in> set [?m]" "tar_isdir ?m" by simp_all
  have fail: "\<exists>e. parse_repo ''/tmp/x/extra.db'' [?m] = Inl e"
    by (rule conjunct2[OF mp[OF conjunct1[OF parse_repo_missing_records[of ?m "[?m]"]]
          conjI[OF m(1) conjI[OF m(2) g]]]])
  have d: "getmember example_db (path_join ''foo-1.0-1'' ''depends'') = Inl KeyError"
    by (simp add: getmember_def path_join_def endswith_def example_db_def)
  have md: "merge_depends example_db ''foo-1.0-1'' (example_pkg {''bar''} {}) =
              Inr (example_pkg {''bar''} {})"
    by (rule conjunct1[OF mp[OF conjunct1[OF conjunct2[OF parse_repo_missing_records]] d]])
  have h: "\<forall>d\<in>set example_db. tar_isdir d \<longrightarrow>
       (\<exists>n p. read_desc (fst (split CHR ''.'' (basename ''/tmp/x/extra.db''))) example_db (tar_name d) =
                Inr (n, p)) \<and>
       getmember example_db (path_join (tar_name d) ''depends'') = Inl KeyError"
    by (simp add: eval_repo eval_desc)
  have ok: "\<exists>idx. parse_repo ''/tmp/x/extra.db'' example_db = Inr idx"
    by (rule mp[OF conjunct2[OF conjunct2[OF parse_repo_missing_records]] h])
  show ?thesis by (intro conjI; (rule g' fail d md ok))
qed

text \<open>
  C10. The classifier is deterministic and independent of the order in which the orphans
  are processed: for a finite orphan set and any two sound iteration orders it gives the
  same outcome, result or exception. A result is the closed form of the reference, which
  reads only the index and the orphan set: an orphan is unneeded when nothing names it or
  when all its hard requirers are orphans, whatever the classification of those requirers.
\<close>

theorem main_order_independent:
  assumes "finite orphans" and "sound_order iter" and "sound_order iter'"
  shows "main gm iter I orphans = main gm iter' I orphans \<and>
         (\<forall>U R. main gm iter I orphans = Inr (U, R) \<longrightarrow>
            U = spec_unneeded I orphans \<and> R = spec_required gm I orphans) \<and>
         (\<forall>U R x. main gm iter I orphans = Inr (U, R) \<and> x \<in> orphans \<and>
            requirers I x \<subseteq> orphans \<longrightarrow> x \<in> U)"
proof -
  note r = main_result[OF assms(1,2), of gm I]
  note r' = main_result[OF assms(1,3), of gm I]
  have a: "main gm iter I orphans = main gm iter' I orphans"
    by (simp only: r r')
  have b: "\<forall>U R. main gm iter I orphans = Inr (U, R) \<longrightarrow>
            U = spec_unneeded I orphans \<and> R = spec_required gm I orphans"
    using r by (auto split: if_splits)
  have c: "\<forall>U R x. main gm iter I orphans = Inr (U, R) \<and> x \<in> orphans \<and>
            requirers I x \<subseteq> orphans \<longrightarrow> x \<in> U"
    using b by (auto simp: spec_unneeded_def)
  from a b c show ?thesis by blast
qed

text \<open>
  The maintained package \<open>m\<close> depends on the orphan \<open>y\<close>, which depends on the orphan
  \<open>x\<close>. In ascending and in descending order alike, \<open>y\<close> is required by \<open>m\<close> and \<open>x\<close> is
  unneeded, its only requirer \<open>y\<close> being an orphan.
\<close>

theorem main_order_independent_witness:
  "finite {''x'', ''y''} \<and> sound_order sorted_list_of_set \<and>
   sound_order (\<lambda>s. rev (sorted_list_of_set s)) \<and>
   main example_gm (\<lambda>s. rev (sorted_list_of_set s))
     [(''m'', example_pkg {''y''} {}), (''x'', example_pkg {} {}), (''y'', example_pkg {''x''} {})]
     {''x'', ''y''} = Inr ({''x''}, [''y'' \<mapsto> [''m'' \<mapsto> [''dev-m'']]]) \<and>
   main example_gm sorted_list_of_set
     [(''m'', example_pkg {''y''} {}), (''x'', example_pkg {} {}), (''y'', example_pkg {''x''} {})]
     {''x'', ''y''} = Inr ({''x''}, [''y'' \<mapsto> [''m'' \<mapsto> [''dev-m'']]])"
proof -
  let ?I = "[(''m'', example_pkg {''y''} {}), (''x'', example_pkg {} {}), (''y'', example_pkg {''x''} {})]"
  have f: "finite {''x'', ''y''}" by simp
  have d: "main example_gm (\<lambda>s. rev (sorted_list_of_set s)) ?I {''x'', ''y''} =
             Inr ({''x''}, [''y'' \<mapsto> [''m'' \<mapsto> [''dev-m'']]])"
    by (simp add: eval_main)
  have e: "main example_gm sorted_list_of_set ?I {''x'', ''y''} =
             main example_gm (\<lambda>s. rev (sorted_list_of_set s)) ?I {''x'', ''y''}"
    by (rule conjunct1[OF main_order_independent[OF f sound_sorted sound_rev_sorted]])
  have a: "main example_gm sorted_list_of_set ?I {''x'', ''y''} =
             Inr ({''x''}, [''y'' \<mapsto> [''m'' \<mapsto> [''dev-m'']]])"
    by (rule trans[OF e d])
  show ?thesis by (intro conjI; (rule f sound_sorted sound_rev_sorted d a))
qed

end
